theory Spec2Isabelle
  imports Complex_Main "HOL-Library.Finite_Map" "HOL-Library.Sublist" "HOL-Library.Log_Nat"
begin

section \<open>The numbers of the options\<close>

text \<open>
  \<^verbatim>\<open>options.workers\<close> is a number that the caller passes and the pool never checks. A
  finite number is kept as the rational that it denotes. \<^verbatim>\<open>-\<close> and \<^verbatim>\<open>+\<close> give the exact
  result rounded to the nearest double: 53 bits of significand, the least exponent -1074, a
  tie going to the even significand. Comparisons of numbers are exact. (A result beyond the
  largest double would be \<^verbatim>\<open>Infinity\<close>; a finite limit and the lengths of arrays never
  give one.)
\<close>

definition pow2 :: "int \<Rightarrow> rat" where
  "pow2 e = (if 0 \<le> e then 2 ^ nat e else 1 / 2 ^ nat (- e))"

text \<open>The exponent of the leading bit of a positive rational.\<close>

definition floorlog2 :: "rat \<Rightarrow> int" where
  "floorlog2 a =
     (let c = bitlen (fst (quotient_of a)) - bitlen (snd (quotient_of a))
      in if pow2 c \<le> a then c else c - 1)"

definition roundHalfEven :: "rat \<Rightarrow> int" where
  "roundHalfEven y =
     (let f = \<lfloor>y\<rfloor>; d = y - of_int f
      in if d < 1 / 2 then f else if 1 / 2 < d then f + 1 else if even f then f else f + 1)"

definition js_round :: "rat \<Rightarrow> rat" where
  "js_round x =
     (if x = 0 then 0
      else
        (let a = \<bar>x\<bar>;
             e = max (floorlog2 a - 52) (- 1074);
             m = roundHalfEven (a / pow2 e)
         in sgn x * of_int m * pow2 e))"

definition js_sub :: "rat \<Rightarrow> rat \<Rightarrow> rat" where
  "js_sub a b = js_round (a - b)"

definition js_add :: "rat \<Rightarrow> rat \<Rightarrow> rat" where
  "js_add a b = js_round (a + b)"

section \<open>The worker pool of cloth: data model\<close>

text \<open>
  The class \<^verbatim>\<open>Pool\<close> comes in two revisions. This section and the next two follow the
  later one, \<^verbatim>\<open>src/unnamed/part_000\<close>, which has the option \<^verbatim>\<open>maxTasksPerWorker\<close>; the
  earlier one, \<^verbatim>\<open>src/lib/pool.js\<close>, follows after them. A pool keeps three containers: the
  object \<^verbatim>\<open>workers\<close> (pid to child process), the array \<^verbatim>\<open>idle\<close> of pids and the array
  \<^verbatim>\<open>tasks\<close> of pending tasks. A process identifier and a task are natural numbers here; a
  task stands for the object made by \<^verbatim>\<open>new Task(command)\<close>.
\<close>

type_synonym pid = nat
type_synonym task = nat

text \<open>
  The fields of a child process that the pool reads or writes: \<^verbatim>\<open>_ready_\<close>,
  \<^verbatim>\<open>_taskCount_\<close>, \<^verbatim>\<open>killed\<close>, and its listeners for \<^verbatim>\<open>'message'\<close>, which are
  \<^verbatim>\<open>readyListener\<close> (attached by \<^verbatim>\<open>_spawn\<close>, removed on the handshake or by
  \<^verbatim>\<open>cleanUpChild\<close>) and the listener of the task that runs on the child.

  Modelled from the spec: the class \<^verbatim>\<open>Task\<close> of \<^verbatim>\<open>lib/task.js\<close> is missing from the
  sources. Its \<^verbatim>\<open>run(worker)\<close> is taken to attach one listener to the worker's message channel
  ("the in-flight task still has an active listener expecting completion"), which is detached
  when the task ends, and which turns a message of type \<^verbatim>\<open>error\<close> into the task's
  \<^verbatim>\<open>error\<close> event with the message as payload ("the in-flight task observes the crash as an
  error"). The field \<open>taskListener\<close> holds the task whose listener is attached.
\<close>

record child =
  ready :: bool
  taskCount :: int
  killed :: bool
  readyAttached :: bool
  taskListener :: "task option"

text \<open>
  The payload of a task event: what the worker sent, or what \<^verbatim>\<open>cleanUpChild\<close> was called
  with, which is the string that the \<^verbatim>\<open>exit\<close> handler builds from the exit code or from the
  signal, or the error of the child's \<^verbatim>\<open>error\<close> event.
\<close>

datatype payload =
    Message string
  | ExitedWithCode int
  | ExitedDueToSignal string
  | ErrorValue string

text \<open>
  An event is emitted under a name, a string, with arguments. The pool emits \<^verbatim>\<open>empty\<close>,
  \<^verbatim>\<open>drain\<close> and \<^verbatim>\<open>saturated\<close> without arguments, and the events of its tasks under the
  name the task gave them.
\<close>

datatype arg = ArgMessage payload | ArgTask task

text \<open>
  Every statement of the pool with an effect leaves an entry in a history, newest entry first:
  \<^verbatim>\<open>this.emit\<close>, \<^verbatim>\<open>cp.fork\<close>, \<^verbatim>\<open>task.run(worker)\<close>, \<^verbatim>\<open>child.kill()\<close>,
  \<^verbatim>\<open>tasks.unshift\<close>, \<^verbatim>\<open>tasks.pop\<close>, \<^verbatim>\<open>tasks = []\<close>, \<^verbatim>\<open>idle.unshift\<close>,
  \<^verbatim>\<open>removeAllListeners\<close>, \<^verbatim>\<open>console.log\<close> and \<^verbatim>\<open>console.error\<close>.
\<close>

datatype action =
    Emit string "arg list"
  | Fork pid
  | TaskRun pid task
  | Kill pid
  | TasksUnshift task
  | TasksPop task
  | TasksReset
  | IdleUnshift pid
  | RemoveAllListeners
  | ConsoleLog pid
  | ConsoleError pid

text \<open>
  What can be thrown out of a handler of the pool: the string thrown by \<^verbatim>\<open>cleanUpChild\<close>,
  the TypeError of reading \<^verbatim>\<open>_taskCount_\<close> of \<^verbatim>\<open>undefined\<close>, and what
  \<^verbatim>\<open>EventEmitter.emit\<close> throws for an \<^verbatim>\<open>error\<close> event that has no listener (the payload
  itself when it is an Error, \<^verbatim>\<open>ERR_UNHANDLED_ERROR\<close> otherwise). A handler that
  throws returns \<open>Inl\<close> of the exception and of the pool as the handler left it at the
  \<^verbatim>\<open>throw\<close>: what it assigned before stays assigned.
\<close>

datatype error = WorkerCouldNotStart | TypeError | UnhandledError

text \<open>
  The pool: \<^verbatim>\<open>options.workers\<close>, \<^verbatim>\<open>options.maxTasksPerWorker\<close>, the three containers,
  the names under which the caller has registered a listener on the pool (\<^verbatim>\<open>Pool\<close> extends
  \<^verbatim>\<open>EventEmitter\<close>), the number of processes forked so far (\<^verbatim>\<open>cp.fork\<close> hands out a pid
  that was never used before: the next number), and the history.
\<close>

record pool =
  opt_workers :: rat
  opt_maxTasksPerWorker :: int
  workers :: "(pid, child) fmap"
  idle :: "pid list"
  tasks :: "task list"
  listeners :: "string list"
  forked :: nat
  history :: "action list"

definition new_Pool :: "rat \<Rightarrow> int \<Rightarrow> pool" where
  "new_Pool w m =
     \<lparr>opt_workers = w, opt_maxTasksPerWorker = m, workers = fmempty, idle = [], tasks = [],
      listeners = [], forked = 0, history = []\<rparr>"

section \<open>The operations of the pool\<close>

definition logged :: "action \<Rightarrow> pool \<Rightarrow> pool" where
  "logged a s = s\<lparr>history := a # history s\<rparr>"

text \<open>
  Of \<^verbatim>\<open>EventEmitter\<close> the pool inherits \<^verbatim>\<open>on\<close>, \<^verbatim>\<open>emit\<close> and
  \<^verbatim>\<open>removeAllListeners\<close>. \<^verbatim>\<open>emit\<close> throws when the name is \<^verbatim>\<open>error\<close> and no listener
  is registered for it; otherwise the event goes to the listeners, which is an entry of the
  history here. What the listeners of the caller do is outside the model.
\<close>

definition on :: "string \<Rightarrow> pool \<Rightarrow> pool" where
  "on name s = s\<lparr>listeners := name # listeners s\<rparr>"

definition emit :: "string \<Rightarrow> arg list \<Rightarrow> pool \<Rightarrow> (error \<times> pool) + pool" where
  "emit name args s =
     (if name = ''error'' \<and> ''error'' \<notin> set (listeners s) then Inl (UnhandledError, s)
      else Inr (logged (Emit name args) s))"

text \<open>\<^verbatim>\<open>Object.keys(this.workers).length\<close>\<close>

definition nworkers :: "pool \<Rightarrow> nat" where
  "nworkers s = card (fmdom' (workers s))"

definition available :: "pool \<Rightarrow> rat" where
  "available s =
     (let busy = js_sub (of_nat (nworkers s)) (of_nat (length (idle s)))
      in js_sub (opt_workers s) busy)"

definition total :: "pool \<Rightarrow> rat" where
  "total s = opt_workers s"

text \<open>\<^verbatim>\<open>_spawn\<close>: fork, initialise the child, attach the listeners, register the child.\<close>

definition spawn :: "pool \<Rightarrow> pool" where
  "spawn s =
     (let p = forked s;
          c = \<lparr>ready = False, taskCount = 0, killed = False, readyAttached = True,
               taskListener = None\<rparr>
      in (logged (Fork p) s)\<lparr>workers := fmupd p c (workers s), forked := Suc (forked s)\<rparr>)"

text \<open>
  \<^verbatim>\<open>_start\<close>: subscribe to the task (the callback is \<open>taskCallback\<close> below) and run it on
  the worker, which attaches the task's listener to the child.
\<close>

definition start :: "pid \<Rightarrow> task \<Rightarrow> pool \<Rightarrow> pool" where
  "start p t s =
     (let s1 = logged (TaskRun p t) s in
      case fmlookup (workers s1) p of
        None \<Rightarrow> s1
      | Some c \<Rightarrow> s1\<lparr>workers := fmupd p (c\<lparr>taskListener := Some t\<rparr>) (workers s1)\<rparr>)"

text \<open>\<^verbatim>\<open>child.kill()\<close>\<close>

definition kill :: "pid \<Rightarrow> pool \<Rightarrow> pool" where
  "kill p s =
     (let s1 = logged (Kill p) s in
      case fmlookup (workers s1) p of
        None \<Rightarrow> s1
      | Some c \<Rightarrow> s1\<lparr>workers := fmupd p (c\<lparr>killed := True\<rparr>) (workers s1)\<rparr>)"

text \<open>The last branch of \<^verbatim>\<open>_allocate\<close>: the worker becomes idle.\<close>

definition makeIdle :: "pid \<Rightarrow> pool \<Rightarrow> (error \<times> pool) + pool" where
  "makeIdle p s =
     (let s1 = (logged (IdleUnshift p) s)\<lparr>idle := p # idle s\<rparr> in
      if nworkers s1 = length (idle s1) then emit ''drain'' [] s1 else Inr s1)"

text \<open>
  \<^verbatim>\<open>_allocate\<close>. When \<^verbatim>\<open>this.workers[pid]\<close> is undefined, reading or incrementing
  \<^verbatim>\<open>child._taskCount_\<close> throws; the first test reads it only when the limit is positive.
\<close>

definition allocate :: "pid \<Rightarrow> pool \<Rightarrow> (error \<times> pool) + pool" where
  "allocate p s =
     (case fmlookup (workers s) p of
        None \<Rightarrow>
          if opt_maxTasksPerWorker s > 0 then Inl (TypeError, s)
          else if tasks s \<noteq> [] then
            (case emit ''empty'' [] s of Inl e \<Rightarrow> Inl e | Inr s1 \<Rightarrow> Inl (TypeError, s1))
          else makeIdle p s
      | Some c \<Rightarrow>
          if opt_maxTasksPerWorker s > 0 \<and> taskCount c \<ge> opt_maxTasksPerWorker s
          then Inr (kill p s)
          else if tasks s \<noteq> [] then
            (case emit ''empty'' [] s of
               Inl e \<Rightarrow> Inl e
             | Inr s1 \<Rightarrow>
                 (let s2 = s1\<lparr>workers :=
                             fmupd p (c\<lparr>taskCount := taskCount c + 1\<rparr>) (workers s1)\<rparr>;
                      t = last (tasks s2);
                      s3 = (logged (TasksPop t) s2)\<lparr>tasks := butlast (tasks s2)\<rparr>
                  in Inr (start p t s3)))
          else makeIdle p s)"

definition handleWorkerDone :: "pid \<Rightarrow> pool \<Rightarrow> (error \<times> pool) + pool" where
  "handleWorkerDone p s =
     (if p |\<in>| fmdom (workers s) then allocate p s
      else if tasks s \<noteq> [] then Inr (spawn s)
      else Inr s)"

text \<open>
  The callback that \<^verbatim>\<open>_start\<close> subscribes to the task's \<^verbatim>\<open>'*'\<close> stream, for the task
  \<open>t\<close> started on \<open>p\<close>; it is called with the type of the task's event, a string, and the
  payload, and emits the event again under the same name.
\<close>

definition taskCallback :: "pid \<Rightarrow> task \<Rightarrow> string \<Rightarrow> payload \<Rightarrow> pool \<Rightarrow> (error \<times> pool) + pool" where
  "taskCallback p t ty m s =
     (case (if ty = ''end'' \<or> ty = ''error'' then handleWorkerDone p s else Inr s) of
        Inl e \<Rightarrow> Inl e
      | Inr s1 \<Rightarrow>
          if ty = ''start'' then emit ty [ArgTask t] s1
          else emit ty [ArgMessage m, ArgTask t] s1)"

text \<open>
  The deferred callback of \<^verbatim>\<open>run(command)\<close>, for the task made from the command.
\<close>

definition run :: "task \<Rightarrow> pool \<Rightarrow> (error \<times> pool) + pool" where
  "run t s =
     (if idle s \<noteq> [] then Inr (start (last (idle s)) t (s\<lparr>idle := butlast (idle s)\<rparr>))
      else if of_nat (nworkers s) < opt_workers s then
        Inr (spawn ((logged (TasksUnshift t) s)\<lparr>tasks := t # tasks s\<rparr>))
      else
        (case emit ''saturated'' [] s of
           Inl e \<Rightarrow> Inl e
         | Inr s1 \<Rightarrow> Inr ((logged (TasksUnshift t) s1)\<lparr>tasks := t # tasks s1\<rparr>)))"

text \<open>
  \<^verbatim>\<open>drain\<close>. \<^verbatim>\<open>Object.keys\<close> lists integer keys in ascending order.
\<close>

definition drain :: "pool \<Rightarrow> pool" where
  "drain s =
     (let s1 = (logged TasksReset s)\<lparr>tasks := []\<rparr>;
          s2 = (logged RemoveAllListeners s1)\<lparr>listeners := []\<rparr>
      in fold kill (sorted_list_of_set (fmdom' (workers s2))) s2)"

text \<open>
  \<^verbatim>\<open>readyListener\<close>, called with a message of type \<^verbatim>\<open>ready\<close> (it ignores every other
  message). It runs only while it is attached to the child.
\<close>

definition readyListener :: "pid \<Rightarrow> pool \<Rightarrow> (error \<times> pool) + pool" where
  "readyListener p s =
     (case fmlookup (workers s) p of
        None \<Rightarrow> Inr s
      | Some c \<Rightarrow>
          if readyAttached c then
            allocate p (s\<lparr>workers :=
              fmupd p (c\<lparr>ready := True, readyAttached := False\<rparr>) (workers s)\<rparr>)
          else Inr s)"

text \<open>
  \<^verbatim>\<open>cleanUpChild(err)\<close>, which the handlers of the child's \<^verbatim>\<open>exit\<close> and \<^verbatim>\<open>error\<close>
  events call. \<^verbatim>\<open>child.listeners('message')\<close> is not empty exactly when a task's listener is
  attached (the child is ready, so \<^verbatim>\<open>readyListener\<close> is gone); calling it with a message of
  type \<^verbatim>\<open>error\<close> makes the task emit \<^verbatim>\<open>error\<close> with \<^verbatim>\<open>err\<close> as payload, which runs the
  callback of \<^verbatim>\<open>_start\<close>.
\<close>

definition cleanUpChild :: "pid \<Rightarrow> payload \<Rightarrow> pool \<Rightarrow> (error \<times> pool) + pool" where
  "cleanUpChild p err s =
     (case fmlookup (workers s) p of
        None \<Rightarrow> Inr s
      | Some c \<Rightarrow>
          (let s1 = s\<lparr>workers := fmdrop p (workers s)\<rparr> in
           if p \<in> set (idle s1) then Inr (s1\<lparr>idle := remove1 p (idle s1)\<rparr>)
           else if \<not> ready c then Inl (WorkerCouldNotStart, s1)
           else
             (case taskListener c of
                Some t \<Rightarrow> taskCallback p t ''error'' err s1
              | None \<Rightarrow>
                  if killed c then handleWorkerDone p (logged (ConsoleLog p) s1)
                  else handleWorkerDone p (logged (ConsoleError p) s1))))"

text \<open>The message that the handler of \<^verbatim>\<open>exit\<close> builds from the exit code and the signal.\<close>

fun exitMessage :: "int option \<Rightarrow> string \<Rightarrow> payload" where
  "exitMessage (Some code) signal = ExitedWithCode code"
| "exitMessage None signal = ExitedDueToSignal signal"

section \<open>The pool as a state machine\<close>

text \<open>
  What happens to a pool, one handler at a time (the pool runs on one thread): the deferred
  callback of a \<^verbatim>\<open>run\<close>, the caller registering a listener on the pool, the \<^verbatim>\<open>ready\<close>
  message of a child, an event of the task that runs on a child, the \<^verbatim>\<open>exit\<close> or
  \<^verbatim>\<open>error\<close> event of a child, and a call of \<^verbatim>\<open>drain\<close>. A task emits events only while
  its listener is attached, and detaches it when it emits \<^verbatim>\<open>end\<close> or \<^verbatim>\<open>error\<close>.
\<close>

datatype event =
    Run task
  | Listen string
  | WorkerReady pid
  | TaskEmits pid string payload
  | WorkerExit pid "int option" string
  | WorkerError pid string
  | Shutdown

definition taskEmits :: "pid \<Rightarrow> string \<Rightarrow> payload \<Rightarrow> pool \<Rightarrow> (error \<times> pool) + pool" where
  "taskEmits p ty m s =
     (case fmlookup (workers s) p of
        None \<Rightarrow> Inr s
      | Some c \<Rightarrow>
          (case taskListener c of
             None \<Rightarrow> Inr s
           | Some t \<Rightarrow>
               if ty = ''end'' \<or> ty = ''error'' then
                 taskCallback p t ty m
                   (s\<lparr>workers := fmupd p (c\<lparr>taskListener := None\<rparr>) (workers s)\<rparr>)
               else taskCallback p t ty m s))"

fun step :: "event \<Rightarrow> pool \<Rightarrow> (error \<times> pool) + pool" where
  "step (Run t) s = run t s"
| "step (Listen name) s = Inr (on name s)"
| "step (WorkerReady p) s = readyListener p s"
| "step (TaskEmits p ty m) s = taskEmits p ty m s"
| "step (WorkerExit p code signal) s = cleanUpChild p (exitMessage code signal) s"
| "step (WorkerError p err) s = cleanUpChild p (ErrorValue err) s"
| "step Shutdown s = Inr (drain s)"

text \<open>A sequence of events; an exception thrown by a handler ends the run.\<close>

fun exec :: "event list \<Rightarrow> pool \<Rightarrow> (error \<times> pool) + pool" where
  "exec [] s = Inr s"
| "exec (e # es) s = (case step e s of Inl x \<Rightarrow> Inl x | Inr s1 \<Rightarrow> exec es s1)"

section \<open>The pool before the rotation limit\<close>

text \<open>
  \<^verbatim>\<open>src/lib/pool.js\<close> is the pool as it was before \<^verbatim>\<open>maxTasksPerWorker\<close>: a child has no
  \<^verbatim>\<open>_taskCount_\<close>, the options have no limit, \<^verbatim>\<open>_allocate\<close> never looks at the child, and the
  callback of \<^verbatim>\<open>_start\<close> holds the code that later became \<^verbatim>\<open>_handleWorkerDone\<close>. Its
  functions carry the suffix 0. Of its own code nothing throws; \<^verbatim>\<open>emit\<close> is the same.
\<close>

record child0 =
  ready0 :: bool
  killed0 :: bool
  readyAttached0 :: bool
  taskListener0 :: "task option"

record pool0 =
  opt_workers0 :: rat
  workers0 :: "(pid, child0) fmap"
  idle0 :: "pid list"
  tasks0 :: "task list"
  listeners0 :: "string list"
  forked0 :: nat
  history0 :: "action list"

definition logged0 :: "action \<Rightarrow> pool0 \<Rightarrow> pool0" where
  "logged0 a s = s\<lparr>history0 := a # history0 s\<rparr>"

definition emit0 :: "string \<Rightarrow> arg list \<Rightarrow> pool0 \<Rightarrow> (error \<times> pool0) + pool0" where
  "emit0 name args s =
     (if name = ''error'' \<and> ''error'' \<notin> set (listeners0 s) then Inl (UnhandledError, s)
      else Inr (logged0 (Emit name args) s))"

definition nworkers0 :: "pool0 \<Rightarrow> nat" where
  "nworkers0 s = card (fmdom' (workers0 s))"

definition spawn0 :: "pool0 \<Rightarrow> pool0" where
  "spawn0 s =
     (let p = forked0 s;
          c = \<lparr>ready0 = False, killed0 = False, readyAttached0 = True, taskListener0 = None\<rparr>
      in (logged0 (Fork p) s)\<lparr>workers0 := fmupd p c (workers0 s), forked0 := Suc (forked0 s)\<rparr>)"

definition start0 :: "pid \<Rightarrow> task \<Rightarrow> pool0 \<Rightarrow> pool0" where
  "start0 p t s =
     (let s1 = logged0 (TaskRun p t) s in
      case fmlookup (workers0 s1) p of
        None \<Rightarrow> s1
      | Some c \<Rightarrow> s1\<lparr>workers0 := fmupd p (c\<lparr>taskListener0 := Some t\<rparr>) (workers0 s1)\<rparr>)"

definition makeIdle0 :: "pid \<Rightarrow> pool0 \<Rightarrow> (error \<times> pool0) + pool0" where
  "makeIdle0 p s =
     (let s1 = (logged0 (IdleUnshift p) s)\<lparr>idle0 := p # idle0 s\<rparr> in
      if nworkers0 s1 = length (idle0 s1) then emit0 ''drain'' [] s1 else Inr s1)"

definition allocate0 :: "pid \<Rightarrow> pool0 \<Rightarrow> (error \<times> pool0) + pool0" where
  "allocate0 p s =
     (if tasks0 s \<noteq> [] then
        (case emit0 ''empty'' [] s of
           Inl e \<Rightarrow> Inl e
         | Inr s1 \<Rightarrow>
             (let t = last (tasks0 s1);
                  s2 = (logged0 (TasksPop t) s1)\<lparr>tasks0 := butlast (tasks0 s1)\<rparr>
              in Inr (start0 p t s2)))
      else makeIdle0 p s)"

definition taskCallback0 :: "pid \<Rightarrow> task \<Rightarrow> string \<Rightarrow> payload \<Rightarrow> pool0 \<Rightarrow> (error \<times> pool0) + pool0" where
  "taskCallback0 p t ty m s =
     (case
        (if ty = ''end'' \<or> ty = ''error'' then
           (if p |\<in>| fmdom (workers0 s) then allocate0 p s
            else if tasks0 s \<noteq> [] then Inr (spawn0 s)
            else Inr s)
         else Inr s) of
        Inl e \<Rightarrow> Inl e
      | Inr s1 \<Rightarrow>
          if ty = ''start'' then emit0 ty [ArgTask t] s1
          else emit0 ty [ArgMessage m, ArgTask t] s1)"

definition run0 :: "task \<Rightarrow> pool0 \<Rightarrow> (error \<times> pool0) + pool0" where
  "run0 t s =
     (if idle0 s \<noteq> [] then Inr (start0 (last (idle0 s)) t (s\<lparr>idle0 := butlast (idle0 s)\<rparr>))
      else if of_nat (nworkers0 s) < opt_workers0 s then
        Inr (spawn0 ((logged0 (TasksUnshift t) s)\<lparr>tasks0 := t # tasks0 s\<rparr>))
      else
        (case emit0 ''saturated'' [] s of
           Inl e \<Rightarrow> Inl e
         | Inr s1 \<Rightarrow> Inr ((logged0 (TasksUnshift t) s1)\<lparr>tasks0 := t # tasks0 s1\<rparr>)))"

definition readyListener0 :: "pid \<Rightarrow> pool0 \<Rightarrow> (error \<times> pool0) + pool0" where
  "readyListener0 p s =
     (case fmlookup (workers0 s) p of
        None \<Rightarrow> Inr s
      | Some c \<Rightarrow>
          if readyAttached0 c then
            allocate0 p (s\<lparr>workers0 :=
              fmupd p (c\<lparr>ready0 := True, readyAttached0 := False\<rparr>) (workers0 s)\<rparr>)
          else Inr s)"

text \<open>
  A pool of the later revision, seen as a pool of this one: the counter of each child and the
  limit are forgotten, everything else is kept.
\<close>

definition forget_child :: "child \<Rightarrow> child0" where
  "forget_child c =
     \<lparr>ready0 = ready c, killed0 = killed c, readyAttached0 = readyAttached c,
      taskListener0 = taskListener c\<rparr>"

definition forget :: "pool \<Rightarrow> pool0" where
  "forget s =
     \<lparr>opt_workers0 = opt_workers s, workers0 = fmmap forget_child (workers s), idle0 = idle s,
      tasks0 = tasks s, listeners0 = listeners s, forked0 = forked s, history0 = history s\<rparr>"

section \<open>Well-formed pools\<close>

text \<open>
  What holds of every child and pool that the handlers can produce: a child is ready exactly
  when \<^verbatim>\<open>readyListener\<close> is detached, a child that is not ready runs no task, the idle
  list names each worker once, every idle worker is tracked, ready and runs no task, every
  tracked pid was handed out by \<^verbatim>\<open>cp.fork\<close>, and tasks wait only while no worker is idle.
\<close>

definition wf_child :: "child \<Rightarrow> bool" where
  "wf_child c \<longleftrightarrow> readyAttached c = (\<not> ready c) \<and> (\<not> ready c \<longrightarrow> taskListener c = None)"

definition pool_inv :: "pool \<Rightarrow> bool" where
  "pool_inv s \<longleftrightarrow>
     distinct (idle s) \<and>
     (\<forall>p \<in> set (idle s). \<exists>c. fmlookup (workers s) p = Some c \<and> ready c \<and> taskListener c = None) \<and>
     (\<forall>p c. fmlookup (workers s) p = Some c \<longrightarrow> wf_child c \<and> p < forked s) \<and>
     (tasks s \<noteq> [] \<longrightarrow> idle s = [])"

text \<open>
  The counters of a pool are in range when no counter is negative and, if the limit is
  positive, no counter is above it.
\<close>

definition counted :: "pool \<Rightarrow> bool" where
  "counted s \<longleftrightarrow>
     (\<forall>p c. fmlookup (workers s) p = Some c \<longrightarrow>
        0 \<le> taskCount c \<and> (0 < opt_maxTasksPerWorker s \<longrightarrow> taskCount c \<le> opt_maxTasksPerWorker s))"

text \<open>
  A pool is within its limit when it tracks no worker or fewer than \<^verbatim>\<open>options.workers\<close>
  plus one: \<^verbatim>\<open>run\<close> forks only below the limit, and a replacement is forked only for a
  worker that was removed.
\<close>

definition within_limit :: "pool \<Rightarrow> bool" where
  "within_limit s \<longleftrightarrow> nworkers s = 0 \<or> of_nat (nworkers s) < opt_workers s + 1"

section \<open>Reading the history\<close>

text \<open>The tasks that were run on a worker (\<^verbatim>\<open>task.run(this.workers[pid])\<close>), oldest first.\<close>

fun startedOn :: "pid \<Rightarrow> action list \<Rightarrow> task list" where
  "startedOn p [] = []"
| "startedOn p (TaskRun q t # h) = (if q = p then startedOn p h @ [t] else startedOn p h)"
| "startedOn p (a # h) = startedOn p h"

text \<open>
  The tasks that were put into the queue (\<^verbatim>\<open>tasks.unshift\<close>), the tasks that were taken
  from it (\<^verbatim>\<open>tasks.pop\<close>), and the tasks that were started from it: the tasks of the
  entries \<^verbatim>\<open>task.run\<close> that come right after a \<^verbatim>\<open>tasks.pop\<close>. All oldest first. A history
  is settled when its newest entry is not a \<^verbatim>\<open>tasks.pop\<close> whose task is yet to be started.
  A pool is \<open>fifo\<close> when the tasks started from the queue are the tasks taken from it, and
  these and the tasks that wait, the last of the array first, make up the tasks that were put;
  \<open>fifo_order\<close> asks only that they come in that order.
\<close>

fun queuedIn :: "action list \<Rightarrow> task list" where
  "queuedIn [] = []"
| "queuedIn (TasksUnshift t # h) = queuedIn h @ [t]"
| "queuedIn (a # h) = queuedIn h"

fun dequeuedIn :: "action list \<Rightarrow> task list" where
  "dequeuedIn [] = []"
| "dequeuedIn (TasksPop t # h) = dequeuedIn h @ [t]"
| "dequeuedIn (a # h) = dequeuedIn h"

fun startedFromQueue :: "action list \<Rightarrow> task list" where
  "startedFromQueue [] = []"
| "startedFromQueue (TaskRun p t # TasksPop t' # h) = startedFromQueue h @ [t]"
| "startedFromQueue (a # h) = startedFromQueue h"

fun settled :: "action list \<Rightarrow> bool" where
  "settled (TasksPop t # h) = False"
| "settled h = True"

definition fifo :: "pool \<Rightarrow> bool" where
  "fifo s \<longleftrightarrow>
     settled (history s) \<and>
     startedFromQueue (history s) = dequeuedIn (history s) \<and>
     queuedIn (history s) = dequeuedIn (history s) @ rev (tasks s)"

definition fifo_order :: "pool \<Rightarrow> bool" where
  "fifo_order s \<longleftrightarrow>
     settled (history s) \<and>
     startedFromQueue (history s) = dequeuedIn (history s) \<and>
     subseq (dequeuedIn (history s) @ rev (tasks s)) (queuedIn (history s))"

text \<open>
  A pool is fully idle when every tracked worker is on the idle list and no task waits. The
  number of events emitted under the name \<^verbatim>\<open>drain\<close> so far is read off the history. The
  events that hand a worker back to \<^verbatim>\<open>_allocate\<close> are its \<^verbatim>\<open>ready\<close> message and the
  \<^verbatim>\<open>end\<close> or \<^verbatim>\<open>error\<close> of its task. An event of a running task whose type is
  \<^verbatim>\<open>drain\<close> is emitted by the pool under that name too.
\<close>

definition fully_idle :: "pool \<Rightarrow> bool" where
  "fully_idle s \<longleftrightarrow> fmdom' (workers s) \<subseteq> set (idle s) \<and> tasks s = []"

fun isDrain :: "action \<Rightarrow> bool" where
  "isDrain (Emit name args) = (name = ''drain'')"
| "isDrain a = False"

definition drainCount :: "pool \<Rightarrow> nat" where
  "drainCount s = length (filter isDrain (history s))"

fun handsBack :: "event \<Rightarrow> bool" where
  "handsBack (WorkerReady p) = True"
| "handsBack (TaskEmits p ty m) = (ty = ''end'' \<or> ty = ''error'')"
| "handsBack e = False"

definition running :: "pid \<Rightarrow> pool \<Rightarrow> bool" where
  "running p s =
     (case fmlookup (workers s) p of None \<Rightarrow> False | Some c \<Rightarrow> taskListener c \<noteq> None)"

fun proxiesDrain :: "event \<Rightarrow> pool \<Rightarrow> bool" where
  "proxiesDrain (TaskEmits p ty m) s = (ty = ''drain'' \<and> running p s)"
| "proxiesDrain e s = False"

text \<open>The arguments with which the callback of \<^verbatim>\<open>_start\<close> emits a task event again.\<close>

definition proxyArgs :: "string \<Rightarrow> payload \<Rightarrow> task \<Rightarrow> arg list" where
  "proxyArgs ty m t = (if ty = ''start'' then [ArgTask t] else [ArgMessage m, ArgTask t])"


text \<open>
  \<open>idleSince h p\<close> counts the entries of the history that are newer than the last
  \<^verbatim>\<open>idle.unshift(p)\<close>: the smaller it is, the later \<open>p\<close> became idle. A list of pids is
  \<open>aged\<close> when each of its pids was put on the idle list and became idle later than the
  pids behind it.
\<close>

definition idleSince :: "action list \<Rightarrow> pid \<Rightarrow> nat" where
  "idleSince h p = length (takeWhile (\<lambda>a. a \<noteq> IdleUnshift p) h)"

definition aged :: "action list \<Rightarrow> pid list \<Rightarrow> bool" where
  "aged h xs \<longleftrightarrow>
     sorted_wrt (\<lambda>p q. idleSince h p < idleSince h q) xs \<and>
     (\<forall>p \<in> set xs. IdleUnshift p \<in> set h)"

definition idle_order :: "pool \<Rightarrow> bool" where
  "idle_order s \<longleftrightarrow> aged (history s) (idle s)"

text \<open>
  Names for the pools that the branches of the handlers leave. \<open>idled\<close>: the worker was put
  on the idle list, and \<^verbatim>\<open>drain\<close> emitted if that made the lists equally long.
  \<open>dispatched\<close>: \<^verbatim>\<open>empty\<close> was emitted, the counter incremented, the oldest task taken and
  started. \<open>allocated\<close>: what \<^verbatim>\<open>_allocate\<close> leaves for a tracked child. \<open>removed\<close>: the
  child is no key of \<^verbatim>\<open>workers\<close> any more. \<open>replaced\<close>: a worker was forked if tasks
  wait.
\<close>

abbreviation idled :: "pid \<Rightarrow> pool \<Rightarrow> pool" where
  "idled p s \<equiv>
     s\<lparr>idle := p # idle s,
       history := (if nworkers s = Suc (length (idle s)) then [Emit ''drain'' []] else []) @
                  IdleUnshift p # history s\<rparr>"

abbreviation dispatched :: "pid \<Rightarrow> child \<Rightarrow> pool \<Rightarrow> pool" where
  "dispatched p c s \<equiv>
     start p (last (tasks s))
       (s\<lparr>workers := fmupd p (c\<lparr>taskCount := taskCount c + 1\<rparr>) (workers s),
          tasks := butlast (tasks s),
          history := TasksPop (last (tasks s)) # Emit ''empty'' [] # history s\<rparr>)"

abbreviation retires :: "child \<Rightarrow> pool \<Rightarrow> bool" where
  "retires c s \<equiv> opt_maxTasksPerWorker s > 0 \<and> taskCount c \<ge> opt_maxTasksPerWorker s"

abbreviation allocated :: "pid \<Rightarrow> child \<Rightarrow> pool \<Rightarrow> pool" where
  "allocated p c s \<equiv>
     (if retires c s then kill p s
      else if tasks s \<noteq> [] then dispatched p c s
      else idled p s)"

abbreviation removed :: "pid \<Rightarrow> pool \<Rightarrow> pool" where
  "removed p s \<equiv> s\<lparr>workers := fmdrop p (workers s)\<rparr>"

abbreviation replaced :: "pool \<Rightarrow> pool" where
  "replaced s \<equiv> (if tasks s \<noteq> [] then spawn s else s)"

section \<open>What each operation does to the fields\<close>

lemma logged_fields [simp]:
  "opt_workers (logged a s) = opt_workers s"
  "opt_maxTasksPerWorker (logged a s) = opt_maxTasksPerWorker s"
  "workers (logged a s) = workers s"
  "idle (logged a s) = idle s"
  "tasks (logged a s) = tasks s"
  "listeners (logged a s) = listeners s"
  "forked (logged a s) = forked s"
  "history (logged a s) = a # history s"
  by (simp_all add: logged_def)

lemma on_fields [simp]:
  "opt_workers (on name s) = opt_workers s"
  "opt_maxTasksPerWorker (on name s) = opt_maxTasksPerWorker s"
  "workers (on name s) = workers s"
  "idle (on name s) = idle s"
  "tasks (on name s) = tasks s"
  "listeners (on name s) = name # listeners s"
  "forked (on name s) = forked s"
  "history (on name s) = history s"
  by (simp_all add: on_def)

lemma spawn_fields [simp]:
  "opt_workers (spawn s) = opt_workers s"
  "opt_maxTasksPerWorker (spawn s) = opt_maxTasksPerWorker s"
  "workers (spawn s) =
     fmupd (forked s) \<lparr>ready = False, taskCount = 0, killed = False, readyAttached = True,
       taskListener = None\<rparr> (workers s)"
  "idle (spawn s) = idle s"
  "tasks (spawn s) = tasks s"
  "listeners (spawn s) = listeners s"
  "forked (spawn s) = Suc (forked s)"
  "history (spawn s) = Fork (forked s) # history s"
  by (simp_all add: spawn_def Let_def)

lemma start_fields [simp]:
  "opt_workers (start p t s) = opt_workers s"
  "opt_maxTasksPerWorker (start p t s) = opt_maxTasksPerWorker s"
  "workers (start p t s) =
     (case fmlookup (workers s) p of None \<Rightarrow> workers s
      | Some c \<Rightarrow> fmupd p (c\<lparr>taskListener := Some t\<rparr>) (workers s))"
  "idle (start p t s) = idle s"
  "tasks (start p t s) = tasks s"
  "listeners (start p t s) = listeners s"
  "forked (start p t s) = forked s"
  "history (start p t s) = TaskRun p t # history s"
  by (simp_all add: start_def Let_def split: option.splits)

lemma kill_fields [simp]:
  "opt_workers (kill p s) = opt_workers s"
  "opt_maxTasksPerWorker (kill p s) = opt_maxTasksPerWorker s"
  "workers (kill p s) =
     (case fmlookup (workers s) p of None \<Rightarrow> workers s
      | Some c \<Rightarrow> fmupd p (c\<lparr>killed := True\<rparr>) (workers s))"
  "idle (kill p s) = idle s"
  "tasks (kill p s) = tasks s"
  "listeners (kill p s) = listeners s"
  "forked (kill p s) = forked s"
  "history (kill p s) = Kill p # history s"
  by (simp_all add: kill_def Let_def split: option.splits)

lemma fold_kill_fields [simp]:
  "tasks (fold kill ps s) = tasks s"
  "idle (fold kill ps s) = idle s"
  "listeners (fold kill ps s) = listeners s"
  "opt_workers (fold kill ps s) = opt_workers s"
  "opt_maxTasksPerWorker (fold kill ps s) = opt_maxTasksPerWorker s"
  "forked (fold kill ps s) = forked s"
  "history (fold kill ps s) = rev (map Kill ps) @ history s"
  by (induction ps arbitrary: s) simp_all

lemma nworkers_simps [simp]:
  "nworkers (logged a s) = nworkers s"
  "nworkers (on name s) = nworkers s"
  "nworkers (s\<lparr>idle := i\<rparr>) = nworkers s"
  "nworkers (s\<lparr>tasks := ts\<rparr>) = nworkers s"
  "nworkers (s\<lparr>listeners := l\<rparr>) = nworkers s"
  "nworkers (s\<lparr>history := h\<rparr>) = nworkers s"
  by (simp_all add: nworkers_def)

lemma nworkers_same_keys:
  "fmlookup (workers s) p = Some c \<Longrightarrow> nworkers (s\<lparr>workers := fmupd p c' (workers s)\<rparr>) = nworkers s"
  by (simp add: nworkers_def fmlookup_dom'_iff insert_absorb)

section \<open>What each handler leaves\<close>

text \<open>
  \<^verbatim>\<open>emit\<close> records the event unless it is an \<^verbatim>\<open>error\<close> without a listener. The events
  that the pool emits of its own have other names, so the handlers that emit only these leave
  a pool in every case.
\<close>

lemma emit_other [simp]:
  "name \<noteq> ''error'' \<Longrightarrow> emit name args s = Inr (logged (Emit name args) s)"
  by (simp add: emit_def)

lemma emit_listened:
  "''error'' \<in> set (listeners s) \<Longrightarrow> emit name args s = Inr (logged (Emit name args) s)"
  by (simp add: emit_def)

lemma emit_Inr: "emit name args s = Inr s' \<Longrightarrow> s' = logged (Emit name args) s"
  by (auto simp: emit_def split: if_splits)


lemma makeIdle_eq: "makeIdle p s = Inr (idled p s)"
  by (simp add: makeIdle_def Let_def logged_def nworkers_def)

lemma allocate_tracked:
  "fmlookup (workers s) p = Some c \<Longrightarrow> allocate p s = Inr (allocated p c s)"
  by (simp add: allocate_def makeIdle_eq Let_def logged_def)

lemma handleWorkerDone_tracked:
  "fmlookup (workers s) p = Some c \<Longrightarrow> handleWorkerDone p s = Inr (allocated p c s)"
  by (simp add: handleWorkerDone_def fmlookup_dom_iff allocate_tracked)

lemma handleWorkerDone_untracked:
  "fmlookup (workers s) p = None \<Longrightarrow> handleWorkerDone p s = Inr (replaced s)"
  by (simp add: handleWorkerDone_def fmlookup_dom_iff)

lemma taskCallback_eq:
  "taskCallback p t ty m s =
     (case (if ty = ''end'' \<or> ty = ''error'' then handleWorkerDone p s else Inr s) of
        Inl e \<Rightarrow> Inl e
      | Inr s1 \<Rightarrow> emit ty (proxyArgs ty m t) s1)"
  by (simp add: taskCallback_def proxyArgs_def split: sum.splits)

lemma taskCallback_untracked:
  "fmlookup (workers s) p = None \<Longrightarrow>
     taskCallback p t ''error'' m s = emit ''error'' [ArgMessage m, ArgTask t] (replaced s)"
  by (simp add: taskCallback_eq handleWorkerDone_untracked proxyArgs_def)

lemma run_eq:
  "run t s =
     Inr (if idle s \<noteq> [] then start (last (idle s)) t (s\<lparr>idle := butlast (idle s)\<rparr>)
          else if of_nat (nworkers s) < opt_workers s then
            spawn (s\<lparr>tasks := t # tasks s, history := TasksUnshift t # history s\<rparr>)
          else s\<lparr>tasks := t # tasks s,
                 history := TasksUnshift t # Emit ''saturated'' [] # history s\<rparr>)"
  by (simp add: run_def logged_def)

lemma readyListener_eq:
  "readyListener p s =
     Inr (case fmlookup (workers s) p of
            None \<Rightarrow> s
          | Some c \<Rightarrow>
              if readyAttached c then
                allocated p (c\<lparr>ready := True, readyAttached := False\<rparr>)
                  (s\<lparr>workers := fmupd p (c\<lparr>ready := True, readyAttached := False\<rparr>) (workers s)\<rparr>)
              else s)"
  by (cases "fmlookup (workers s) p") (simp_all add: readyListener_def allocate_tracked)

text \<open>
  The events of a task: nothing happens unless the task runs on a tracked child; an event
  that ends the task detaches its listener and hands the worker to \<^verbatim>\<open>_allocate\<close>; then
  the event is emitted again, which throws only for an \<^verbatim>\<open>error\<close> without a listener.
\<close>

lemma taskEmits_eq:
  "taskEmits p ty m s =
     (case fmlookup (workers s) p of
        None \<Rightarrow> Inr s
      | Some c \<Rightarrow>
          (case taskListener c of
             None \<Rightarrow> Inr s
           | Some t \<Rightarrow>
               emit ty (proxyArgs ty m t)
                 (if ty = ''end'' \<or> ty = ''error'' then
                    allocated p (c\<lparr>taskListener := None\<rparr>)
                      (s\<lparr>workers := fmupd p (c\<lparr>taskListener := None\<rparr>) (workers s)\<rparr>)
                  else s)))"
proof (cases "fmlookup (workers s) p")
  case None
  then show ?thesis by (simp add: taskEmits_def)
next
  case (Some c)
  show ?thesis
  proof (cases "taskListener c")
    case None
    with Some show ?thesis by (simp add: taskEmits_def)
  next
    case tl: (Some t)
    let ?s = "s\<lparr>workers := fmupd p (c\<lparr>taskListener := None\<rparr>) (workers s)\<rparr>"
    have "handleWorkerDone p ?s = Inr (allocated p (c\<lparr>taskListener := None\<rparr>) ?s)"
      by (rule handleWorkerDone_tracked) simp
    with Some tl show ?thesis by (simp add: taskEmits_def taskCallback_eq)
  qed
qed

text \<open>
  \<^verbatim>\<open>cleanUpChild\<close> for a tracked child: the child is removed; if it was idle it leaves the
  idle list; if it was not ready the handler throws; if a task was running on it, a worker is
  forked if tasks wait and the task's \<^verbatim>\<open>error\<close> is emitted; otherwise a line is logged and
  a worker is forked if tasks wait.
\<close>

lemma cleanUpChild_tracked:
  assumes "fmlookup (workers s) p = Some c"
  shows "cleanUpChild p err s =
     (if p \<in> set (idle s) then Inr ((removed p s)\<lparr>idle := remove1 p (idle s)\<rparr>)
      else if \<not> ready c then Inl (WorkerCouldNotStart, removed p s)
      else
        (case taskListener c of
           Some t \<Rightarrow> emit ''error'' [ArgMessage err, ArgTask t] (replaced (removed p s))
         | None \<Rightarrow>
             Inr (replaced (logged (if killed c then ConsoleLog p else ConsoleError p)
                    (removed p s)))))"
  using assms
  by (simp add: cleanUpChild_def Let_def taskCallback_untracked handleWorkerDone_untracked
      split: option.splits)


text \<open>A sequence of events keeps what every step keeps.\<close>

lemma exec_preserves:
  assumes stp: "\<And>e s s'. P s \<Longrightarrow> step e s = Inr s' \<Longrightarrow> P s'"
  shows "P s \<Longrightarrow> exec tr s = Inr s' \<Longrightarrow> P s'"
proof (induction tr arbitrary: s)
  case Nil
  then show ?case by simp
next
  case (Cons e es)
  from Cons.prems(2) obtain s1 where s1: "step e s = Inr s1" "exec es s1 = Inr s'"
    by (simp split: sum.splits)
  from Cons.prems(1) s1(1) have "P s1" by (rule stp)
  then show ?case using s1(2) by (rule Cons.IH)
qed

text \<open>
  What a handler that returns has done, case by case.
\<close>

lemma run_cases:
  assumes "run t s = Inr s'"
  shows "s' = (if idle s \<noteq> [] then start (last (idle s)) t (s\<lparr>idle := butlast (idle s)\<rparr>)
             else if of_nat (nworkers s) < opt_workers s then
               spawn (s\<lparr>tasks := t # tasks s, history := TasksUnshift t # history s\<rparr>)
             else s\<lparr>tasks := t # tasks s,
                    history := TasksUnshift t # Emit ''saturated'' [] # history s\<rparr>)"
  using assms by (simp add: run_eq)

lemma readyListener_cases:
  assumes "readyListener p s = Inr s'"
  shows "s' = s \<or> (\<exists>c. fmlookup (workers s) p = Some c \<and> readyAttached c \<and>
      s' = allocated p (c\<lparr>ready := True, readyAttached := False\<rparr>)
              (s\<lparr>workers := fmupd p (c\<lparr>ready := True, readyAttached := False\<rparr>) (workers s)\<rparr>))"
proof (cases "fmlookup (workers s) p")
  case None
  with assms show ?thesis by (simp add: readyListener_def)
next
  case (Some c)
  show ?thesis
  proof (cases "readyAttached c")
    case False
    with Some assms show ?thesis by (simp add: readyListener_def)
  next
    case True
    let ?c = "c\<lparr>ready := True, readyAttached := False\<rparr>"
    let ?s = "s\<lparr>workers := fmupd p ?c (workers s)\<rparr>"
    have "allocate p ?s = Inr (allocated p ?c ?s)" by (rule allocate_tracked) simp
    moreover from assms Some True have "allocate p ?s = Inr s'" by (simp add: readyListener_def)
    ultimately have "s' = allocated p ?c ?s" by (simp only: sum.inject)
    with Some True show ?thesis by blast
  qed
qed

lemma taskEmits_cases:
  assumes "taskEmits p ty m s = Inr s'"
  shows "(s' = s \<and> \<not> running p s) \<or>
     (\<exists>c t. fmlookup (workers s) p = Some c \<and> taskListener c = Some t \<and>
        (if ty = ''end'' \<or> ty = ''error'' then
           s' = logged (Emit ty (proxyArgs ty m t))
              (allocated p (c\<lparr>taskListener := None\<rparr>)
                 (s\<lparr>workers := fmupd p (c\<lparr>taskListener := None\<rparr>) (workers s)\<rparr>))
         else s' = logged (Emit ty (proxyArgs ty m t)) s))"
proof (cases "fmlookup (workers s) p")
  case None
  with assms show ?thesis by (simp add: taskEmits_def running_def)
next
  case (Some c)
  show ?thesis
  proof (cases "taskListener c")
    case None
    with Some assms show ?thesis by (simp add: taskEmits_def running_def)
  next
    case tl: (Some t)
    let ?s = "s\<lparr>workers := fmupd p (c\<lparr>taskListener := None\<rparr>) (workers s)\<rparr>"
    let ?x = "if ty = ''end'' \<or> ty = ''error'' then allocated p (c\<lparr>taskListener := None\<rparr>) ?s else s"
    from assms have "emit ty (proxyArgs ty m t) ?x = Inr s'"
      unfolding taskEmits_eq by (simp only: Some tl option.case)
    then have "s' = logged (Emit ty (proxyArgs ty m t)) ?x" by (rule emit_Inr)
    then have "if ty = ''end'' \<or> ty = ''error'' then
           s' = logged (Emit ty (proxyArgs ty m t))
              (allocated p (c\<lparr>taskListener := None\<rparr>) ?s)
         else s' = logged (Emit ty (proxyArgs ty m t)) s"
      by (simp only: split: if_splits) auto
    with Some tl show ?thesis by blast
  qed
qed

lemma cleanUpChild_cases:
  assumes "cleanUpChild p err s = Inr s'"
  shows "(s' = s \<and> fmlookup (workers s) p = None) \<or>
    (\<exists>c. fmlookup (workers s) p = Some c \<and>
       ((p \<in> set (idle s) \<and> s' = (removed p s)\<lparr>idle := remove1 p (idle s)\<rparr>) \<or>
        (p \<notin> set (idle s) \<and> ready c \<and>
          ((\<exists>t. taskListener c = Some t \<and> ''error'' \<in> set (listeners s) \<and>
              s' = logged (Emit ''error'' [ArgMessage err, ArgTask t]) (replaced (removed p s))) \<or>
           (taskListener c = None \<and>
              s' = replaced (logged (if killed c then ConsoleLog p else ConsoleError p)
                     (removed p s)))))))"
proof (cases "fmlookup (workers s) p")
  case None
  with assms show ?thesis by (simp add: cleanUpChild_def)
next
  case (Some c)
  note eq = assms[unfolded cleanUpChild_tracked[OF Some]]
  show ?thesis
  proof (cases "p \<in> set (idle s)")
    case True
    with eq have "s' = (removed p s)\<lparr>idle := remove1 p (idle s)\<rparr>" by (simp only: if_True sum.inject)
    with Some True show ?thesis by blast
  next
    case False
    with eq have rdy: "ready c" by (cases "ready c") (simp_all only: if_True if_False not_True_eq_False not_False_eq_True sum.distinct)
    show ?thesis
    proof (cases "taskListener c")
      case None
      with eq False rdy have "s' = replaced (logged (if killed c then ConsoleLog p else ConsoleError p)
                     (removed p s))"
        by (simp only: if_True if_False not_True_eq_False option.case sum.inject)
      with Some False rdy None show ?thesis by blast
    next
      case tl: (Some t)
      with eq False rdy have em: "emit ''error'' [ArgMessage err, ArgTask t]
            (replaced (removed p s)) = Inr s'"
        by (simp only: if_True if_False not_True_eq_False option.case)
      have l: "''error'' \<in> set (listeners s)"
      proof (rule ccontr)
        assume "''error'' \<notin> set (listeners s)"
        then have "emit ''error'' [ArgMessage err, ArgTask t] (replaced (removed p s)) =
            Inl (UnhandledError, replaced (removed p s))"
          by (simp add: emit_def)
        with em show False by simp
      qed
      from emit_Inr[OF em] Some False rdy tl l show ?thesis by blast
    qed
  qed
qed

text \<open>
  The steps of a pool by what they leave: one case for each branch of the handlers that
  returns.
\<close>

lemma step_cases [consumes 1, case_names Run Listen Nothing Ready TaskEnd TaskOther
    GoneIdle GoneRunning GoneQuiet Shutdown]:
  assumes "step e s = Inr s'"
  obtains
    (Run) t where "e = Run t"
      "s' = (if idle s \<noteq> [] then start (last (idle s)) t (s\<lparr>idle := butlast (idle s)\<rparr>)
             else if of_nat (nworkers s) < opt_workers s then
               spawn (s\<lparr>tasks := t # tasks s, history := TasksUnshift t # history s\<rparr>)
             else s\<lparr>tasks := t # tasks s,
                    history := TasksUnshift t # Emit ''saturated'' [] # history s\<rparr>)"
  | (Listen) name where "e = Listen name" "s' = on name s"
  | (Nothing) "s' = s" "\<not> proxiesDrain e s"
  | (Ready) p c where "e = WorkerReady p" "fmlookup (workers s) p = Some c" "readyAttached c"
      "s' = allocated p (c\<lparr>ready := True, readyAttached := False\<rparr>)
              (s\<lparr>workers := fmupd p (c\<lparr>ready := True, readyAttached := False\<rparr>) (workers s)\<rparr>)"
  | (TaskEnd) p ty m c t where "e = TaskEmits p ty m" "ty = ''end'' \<or> ty = ''error''"
      "fmlookup (workers s) p = Some c" "taskListener c = Some t"
      "s' = logged (Emit ty (proxyArgs ty m t))
              (allocated p (c\<lparr>taskListener := None\<rparr>)
                 (s\<lparr>workers := fmupd p (c\<lparr>taskListener := None\<rparr>) (workers s)\<rparr>))"
  | (TaskOther) p ty m c t where "e = TaskEmits p ty m" "ty \<noteq> ''end''" "ty \<noteq> ''error''"
      "fmlookup (workers s) p = Some c" "taskListener c = Some t"
      "s' = logged (Emit ty (proxyArgs ty m t)) s"
  | (GoneIdle) p c where "\<not> handsBack e" "\<not> proxiesDrain e s" "e \<noteq> Shutdown"
      "fmlookup (workers s) p = Some c" "p \<in> set (idle s)"
      "s' = (removed p s)\<lparr>idle := remove1 p (idle s)\<rparr>"
  | (GoneRunning) p c t err where "\<not> handsBack e" "\<not> proxiesDrain e s" "e \<noteq> Shutdown"
      "fmlookup (workers s) p = Some c" "p \<notin> set (idle s)" "ready c" "taskListener c = Some t"
      "''error'' \<in> set (listeners s)"
      "s' = logged (Emit ''error'' [ArgMessage err, ArgTask t]) (replaced (removed p s))"
  | (GoneQuiet) p c where "\<not> handsBack e" "\<not> proxiesDrain e s" "e \<noteq> Shutdown"
      "fmlookup (workers s) p = Some c" "p \<notin> set (idle s)" "ready c" "taskListener c = None"
      "s' = replaced (logged (if killed c then ConsoleLog p else ConsoleError p) (removed p s))"
  | (Shutdown) "e = Shutdown" "s' = drain s"
proof -
  have gone: thesis
    if nb: "\<not> handsBack e" "\<not> proxiesDrain e s" "e \<noteq> Shutdown"
      and cu: "cleanUpChild p err s = Inr s'" for p err
  proof -
    from cleanUpChild_cases[OF cu] consider
        (a) "s' = s"
      | (b) c where "fmlookup (workers s) p = Some c" "p \<in> set (idle s)"
          "s' = (removed p s)\<lparr>idle := remove1 p (idle s)\<rparr>"
      | (c) c t where "fmlookup (workers s) p = Some c" "p \<notin> set (idle s)" "ready c"
          "taskListener c = Some t" "''error'' \<in> set (listeners s)"
          "s' = logged (Emit ''error'' [ArgMessage err, ArgTask t]) (replaced (removed p s))"
      | (d) c where "fmlookup (workers s) p = Some c" "p \<notin> set (idle s)" "ready c"
          "taskListener c = None"
          "s' = replaced (logged (if killed c then ConsoleLog p else ConsoleError p) (removed p s))"
      by blast
    then show thesis
    proof cases
      case a
      then show thesis using nb(2) by (rule Nothing)
    next
      case b
      with nb show thesis by (rule GoneIdle)
    next
      case c
      with nb show thesis by (rule GoneRunning)
    next
      case d
      with nb show thesis by (rule GoneQuiet)
    qed
  qed
  show thesis
  proof (cases e)
    case (Run t)
    with assms have "run t s = Inr s'" by simp
    from Run run_cases[OF this] show thesis by (rule that(1))
  next
    case (Listen name)
    moreover from assms Listen have "s' = on name s" by simp
    ultimately show thesis by (rule that(2))
  next
    case (WorkerReady p)
    with assms have "readyListener p s = Inr s'" by simp
    from readyListener_cases[OF this] consider
        (a) "s' = s"
      | (b) c where "fmlookup (workers s) p = Some c" "readyAttached c"
        "s' = allocated p (c\<lparr>ready := True, readyAttached := False\<rparr>)
              (s\<lparr>workers := fmupd p (c\<lparr>ready := True, readyAttached := False\<rparr>) (workers s)\<rparr>)"
      by blast
    then show thesis
    proof cases
      case a
      moreover have "\<not> proxiesDrain e s" using WorkerReady by simp
      ultimately show thesis by (rule Nothing)
    next
      case b
      with WorkerReady show thesis by (rule Ready)
    qed
  next
    case (TaskEmits p ty m)
    with assms have "taskEmits p ty m s = Inr s'" by simp
    from taskEmits_cases[OF this] consider
        (a) "s' = s" "\<not> running p s"
      | (b) c t where "ty = ''end'' \<or> ty = ''error''"
          "fmlookup (workers s) p = Some c" "taskListener c = Some t"
          "s' = logged (Emit ty (proxyArgs ty m t))
              (allocated p (c\<lparr>taskListener := None\<rparr>)
                 (s\<lparr>workers := fmupd p (c\<lparr>taskListener := None\<rparr>) (workers s)\<rparr>))"
      | (c) c t where "ty \<noteq> ''end''" "ty \<noteq> ''error''"
          "fmlookup (workers s) p = Some c" "taskListener c = Some t"
          "s' = logged (Emit ty (proxyArgs ty m t)) s"
      by (cases "ty = ''end'' \<or> ty = ''error''") auto
    then show thesis
    proof cases
      case a
      then have "\<not> proxiesDrain e s" using TaskEmits by simp
      with a(1) show thesis by (rule Nothing)
    next
      case b
      with TaskEmits show thesis by (rule TaskEnd)
    next
      case c
      with TaskEmits show thesis by (rule TaskOther)
    qed
  next
    case (WorkerExit p code signal)
    then have "\<not> handsBack e" "\<not> proxiesDrain e s" "e \<noteq> Shutdown" by simp_all
    moreover from assms WorkerExit have "cleanUpChild p (exitMessage code signal) s = Inr s'"
      by simp
    ultimately show thesis by (rule gone)
  next
    case (WorkerError p x)
    then have "\<not> handsBack e" "\<not> proxiesDrain e s" "e \<noteq> Shutdown" by simp_all
    moreover from assms WorkerError have "cleanUpChild p (ErrorValue x) s = Inr s'"
      by simp
    ultimately show thesis by (rule gone)
  next
    case Shutdown
    moreover from assms Shutdown have "s' = drain s" by simp
    ultimately show thesis by (rule that(10))
  qed
qed

section \<open>The handlers keep a pool well-formed\<close>

lemma pool_inv_new: "pool_inv (new_Pool w m)"
  by (simp add: pool_inv_def new_Pool_def)

lemma pool_inv_simps [simp]:
  "pool_inv (logged a s) = pool_inv s"
  "pool_inv (on name s) = pool_inv s"
  "pool_inv (s\<lparr>history := h\<rparr>) = pool_inv s"
  "pool_inv (s\<lparr>listeners := l\<rparr>) = pool_inv s"
  by (simp_all add: pool_inv_def)

lemma pool_inv_spawn: "pool_inv s \<Longrightarrow> pool_inv (spawn s)"
  unfolding pool_inv_def by (auto simp: wf_child_def less_Suc_eq)

lemma pool_inv_kill: "pool_inv s \<Longrightarrow> pool_inv (kill p s)"
  unfolding pool_inv_def by (auto simp: wf_child_def split: option.splits)

lemma pool_inv_replaced: "pool_inv s \<Longrightarrow> pool_inv (replaced s)"
  by (simp add: pool_inv_spawn)

lemma pool_inv_allocated:
  assumes "pool_inv s" "fmlookup (workers s) p = Some c" "ready c" "taskListener c = None"
    "p \<notin> set (idle s)"
  shows "pool_inv (allocated p c s)"
proof (cases "retires c s")
  case True
  with assms(1) show ?thesis by (simp add: pool_inv_kill)
next
  case nokill: False
  show ?thesis
  proof (cases "tasks s = []")
    case True
    have "pool_inv (s\<lparr>idle := p # idle s\<rparr>)"
      using assms True unfolding pool_inv_def by auto
    then have "pool_inv (idled p s)" by simp
    with nokill True show ?thesis by (simp only: if_not_P if_False not_not if_True simp_thms)
  next
    case False
    with assms(1) have "idle s = []" by (simp add: pool_inv_def)
    with assms(1,2,3) have "pool_inv (dispatched p c s)"
      unfolding pool_inv_def by (auto simp: wf_child_def)
    with nokill False show ?thesis by (simp only: if_not_P if_P if_False if_True simp_thms)
  qed
qed

lemma pool_inv_handshake:
  assumes "pool_inv s" "fmlookup (workers s) p = Some c" "readyAttached c"
  shows "pool_inv (s\<lparr>workers := fmupd p (c\<lparr>ready := True, readyAttached := False\<rparr>) (workers s)\<rparr>)"
    and "p \<notin> set (idle s)"
proof -
  from assms have nr: "\<not> ready c" "taskListener c = None"
    by (auto simp: pool_inv_def wf_child_def)
  with assms(1,2) show notin: "p \<notin> set (idle s)" by (auto simp: pool_inv_def)
  show "pool_inv (s\<lparr>workers := fmupd p (c\<lparr>ready := True, readyAttached := False\<rparr>) (workers s)\<rparr>)"
    using assms(1,2) nr notin unfolding pool_inv_def by (auto simp: wf_child_def)
qed

lemma pool_inv_detach:
  assumes "pool_inv s" "fmlookup (workers s) p = Some c" "taskListener c = Some t"
  shows "pool_inv (s\<lparr>workers := fmupd p (c\<lparr>taskListener := None\<rparr>) (workers s)\<rparr>)"
    and "p \<notin> set (idle s)" and "ready c"
proof -
  from assms show notin: "p \<notin> set (idle s)" by (auto simp: pool_inv_def)
  from assms(1,2) have wf: "wf_child c" by (auto simp: pool_inv_def)
  with assms(3) show "ready c" by (auto simp: wf_child_def)
  from wf show "pool_inv (s\<lparr>workers := fmupd p (c\<lparr>taskListener := None\<rparr>) (workers s)\<rparr>)"
    using assms(1,2) notin unfolding pool_inv_def by (auto simp: wf_child_def)
qed

lemma pool_inv_ready:
  assumes "pool_inv s" "fmlookup (workers s) p = Some c" "readyAttached c"
  shows "pool_inv (allocated p (c\<lparr>ready := True, readyAttached := False\<rparr>)
              (s\<lparr>workers := fmupd p (c\<lparr>ready := True, readyAttached := False\<rparr>) (workers s)\<rparr>))"
proof -
  let ?c = "c\<lparr>ready := True, readyAttached := False\<rparr>"
  let ?s = "s\<lparr>workers := fmupd p ?c (workers s)\<rparr>"
  from assms have "taskListener c = None" by (auto simp: pool_inv_def wf_child_def)
  then have "taskListener ?c = None" by simp
  moreover have "fmlookup (workers ?s) p = Some ?c" "ready ?c" by simp_all
  moreover have "p \<notin> set (idle ?s)" using pool_inv_handshake(2)[OF assms] by simp
  ultimately show ?thesis using pool_inv_handshake(1)[OF assms]
    by (intro pool_inv_allocated)
qed

lemma pool_inv_done:
  assumes "pool_inv s" "fmlookup (workers s) p = Some c" "taskListener c = Some t"
  shows "pool_inv (allocated p (c\<lparr>taskListener := None\<rparr>)
              (s\<lparr>workers := fmupd p (c\<lparr>taskListener := None\<rparr>) (workers s)\<rparr>))"
proof -
  let ?c = "c\<lparr>taskListener := None\<rparr>"
  let ?s = "s\<lparr>workers := fmupd p ?c (workers s)\<rparr>"
  have "fmlookup (workers ?s) p = Some ?c" "taskListener ?c = None" by simp_all
  moreover have "ready ?c" using pool_inv_detach(3)[OF assms] by simp
  moreover have "p \<notin> set (idle ?s)" using pool_inv_detach(2)[OF assms] by simp
  ultimately show ?thesis using pool_inv_detach(1)[OF assms]
    by (intro pool_inv_allocated)
qed

lemma pool_inv_run:
  assumes inv: "pool_inv s"
  shows "pool_inv (if idle s \<noteq> [] then start (last (idle s)) t (s\<lparr>idle := butlast (idle s)\<rparr>)
             else if of_nat (nworkers s) < opt_workers s then
               spawn (s\<lparr>tasks := t # tasks s, history := TasksUnshift t # history s\<rparr>)
             else s\<lparr>tasks := t # tasks s,
                    history := TasksUnshift t # Emit ''saturated'' [] # history s\<rparr>)"
proof (cases "idle s = []")
  case True
  have a: "pool_inv (s\<lparr>tasks := t # tasks s\<rparr>)"
    using inv True by (simp add: pool_inv_def)
  then have "pool_inv (spawn (s\<lparr>tasks := t # tasks s, history := TasksUnshift t # history s\<rparr>))"
    by (intro pool_inv_spawn) simp
  with True a show ?thesis by simp
next
  case False
  then have mem: "last (idle s) \<in> set (idle s)" by simp
  from inv have d: "distinct (idle s)" by (simp add: pool_inv_def)
  from False d have notin: "last (idle s) \<notin> set (butlast (idle s))"
    by (metis append_butlast_last_id distinct_append disjoint_iff list.set_intros(1))
  have sub: "\<And>q. q \<in> set (butlast (idle s)) \<Longrightarrow> q \<in> set (idle s)"
    by (rule in_set_butlastD)
  from inv mem obtain c where c: "fmlookup (workers s) (last (idle s)) = Some c" "ready c"
    by (auto simp: pool_inv_def)
  from inv have tn: "tasks s = []" using False by (auto simp: pool_inv_def)
  have "pool_inv (start (last (idle s)) t (s\<lparr>idle := butlast (idle s)\<rparr>))"
    unfolding pool_inv_def
    using inv c tn notin sub d
    by (auto simp: pool_inv_def wf_child_def distinct_butlast)
  with False show ?thesis by simp
qed

lemma pool_inv_removed:
  assumes "pool_inv s"
  shows "p \<notin> set (idle s) \<Longrightarrow> pool_inv (removed p s)"
    and "pool_inv ((removed p s)\<lparr>idle := remove1 p (idle s)\<rparr>)"
proof -
  show "p \<notin> set (idle s) \<Longrightarrow> pool_inv (removed p s)"
    using assms unfolding pool_inv_def by auto
  from assms have d: "distinct (idle s)" by (simp add: pool_inv_def)
  show "pool_inv ((removed p s)\<lparr>idle := remove1 p (idle s)\<rparr>)"
    unfolding pool_inv_def using assms d by (auto simp: pool_inv_def)
qed

lemma pool_inv_fold_kill: "pool_inv s \<Longrightarrow> pool_inv (fold kill ps s)"
  by (induction ps arbitrary: s) (simp_all add: pool_inv_kill)

lemma pool_inv_drain: "pool_inv s \<Longrightarrow> pool_inv (drain s)"
proof -
  assume "pool_inv s"
  then have "pool_inv ((logged RemoveAllListeners ((logged TasksReset s)\<lparr>tasks := []\<rparr>))
      \<lparr>listeners := []\<rparr>)"
    by (simp add: pool_inv_def)
  then show ?thesis unfolding drain_def Let_def by (rule pool_inv_fold_kill)
qed

lemma pool_inv_step:
  assumes inv: "pool_inv s" and st: "step e s = Inr s'"
  shows "pool_inv s'"
  using st
proof (cases rule: step_cases)
  case (Run t)
  show ?thesis unfolding Run(2) using inv by (rule pool_inv_run)
next
  case (Listen name)
  with inv show ?thesis by simp
next
  case Nothing
  with inv show ?thesis by simp
next
  case (Ready p c)
  show ?thesis unfolding Ready(4) using inv Ready(2,3) by (rule pool_inv_ready)
next
  case (TaskEnd p ty m c t)
  have "pool_inv (allocated p (c\<lparr>taskListener := None\<rparr>)
              (s\<lparr>workers := fmupd p (c\<lparr>taskListener := None\<rparr>) (workers s)\<rparr>))"
    using inv TaskEnd(3,4) by (rule pool_inv_done)
  then show ?thesis unfolding TaskEnd(5) by simp
next
  case (TaskOther p ty m c t)
  with inv show ?thesis by simp
next
  case (GoneIdle p c)
  show ?thesis unfolding GoneIdle(6) using inv by (rule pool_inv_removed(2))
next
  case (GoneRunning p c t err)
  have "pool_inv (removed p s)" using inv GoneRunning(5) by (rule pool_inv_removed(1))
  then have "pool_inv (replaced (removed p s))" by (rule pool_inv_replaced)
  then show ?thesis unfolding GoneRunning(9) by simp
next
  case (GoneQuiet p c)
  have "pool_inv (removed p s)" using inv GoneQuiet(5) by (rule pool_inv_removed(1))
  then have "pool_inv (logged (if killed c then ConsoleLog p else ConsoleError p) (removed p s))"
    by simp
  then show ?thesis unfolding GoneQuiet(8) by (rule pool_inv_replaced)
next
  case Shutdown
  show ?thesis unfolding Shutdown(2) using inv by (rule pool_inv_drain)
qed

lemma pool_inv_reachable:
  assumes "exec tr (new_Pool w m) = Inr s"
  shows "pool_inv s"
proof (rule exec_preserves[of pool_inv, OF _ pool_inv_new assms])
  fix e s s' assume "pool_inv s" "step e s = Inr s'"
  then show "pool_inv s'" by (rule pool_inv_step)
qed

section \<open>Shutting down: the fields\<close>

lemma fold_kill_keys [simp]: "fmdom' (workers (fold kill ps s)) = fmdom' (workers s)"
proof (induction ps arbitrary: s)
  case Nil
  show ?case by simp
next
  case (Cons p ps)
  have "fmdom' (workers (kill p s)) = fmdom' (workers s)"
    by (auto simp: fmlookup_dom'_iff split: option.splits if_splits)
  with Cons show ?case by simp
qed

lemma drain_fields [simp]:
  "tasks (drain s) = []"
  "idle (drain s) = idle s"
  "listeners (drain s) = []"
  "opt_workers (drain s) = opt_workers s"
  "opt_maxTasksPerWorker (drain s) = opt_maxTasksPerWorker s"
  "forked (drain s) = forked s"
  "history (drain s) =
     rev (map Kill (sorted_list_of_set (fmdom' (workers s)))) @
     RemoveAllListeners # TasksReset # history s"
  "fmdom' (workers (drain s)) = fmdom' (workers s)"
  by (simp_all add: drain_def Let_def)

section \<open>The number of tracked workers\<close>

lemma nworkers_spawn: "nworkers (spawn s) \<le> Suc (nworkers s)"
  by (simp add: nworkers_def card_insert_if)

lemma nworkers_start [simp]: "nworkers (start p t s) = nworkers s"
  by (simp add: nworkers_def fmlookup_dom'_iff insert_absorb split: option.splits)

lemma nworkers_kill [simp]: "nworkers (kill p s) = nworkers s"
  by (simp add: nworkers_def fmlookup_dom'_iff insert_absorb split: option.splits)

lemma nworkers_drain [simp]: "nworkers (drain s) = nworkers s"
  by (simp add: nworkers_def)

lemma nworkers_allocated:
  assumes "fmlookup (workers s) p = Some c"
  shows "nworkers (allocated p c' (s\<lparr>workers := fmupd p c' (workers s)\<rparr>)) = nworkers s"
proof -
  let ?s = "s\<lparr>workers := fmupd p c' (workers s)\<rparr>"
  have a: "nworkers ?s = nworkers s" using assms by (rule nworkers_same_keys)
  have "nworkers (dispatched p c' ?s) = nworkers s"
    using assms by (simp add: nworkers_def fmlookup_dom'_iff insert_absorb)
  moreover have "nworkers (idled p ?s) = nworkers s" using a by (simp add: nworkers_def)
  ultimately show ?thesis using a by simp
qed

lemma nworkers_removed:
  assumes "fmlookup (workers s) p = Some c"
  shows "Suc (nworkers (removed p s)) = nworkers s"
proof -
  from assms have "p \<in> fmdom' (workers s)" by (simp add: fmlookup_dom'_iff)
  then have "Suc (card (fmdom' (workers s) - {p})) = card (fmdom' (workers s))"
    by (intro card_Suc_Diff1) simp_all
  then show ?thesis by (simp add: nworkers_def)
qed

lemma nworkers_replaced:
  assumes "fmlookup (workers s) p = Some c"
  shows "nworkers (replaced (removed p s)) \<le> nworkers s"
  using nworkers_removed[OF assms] nworkers_spawn[of "removed p s"] by simp

section \<open>The options never change\<close>

lemma opts_step:
  assumes "step e s = Inr s'"
  shows "opt_workers s' = opt_workers s \<and> opt_maxTasksPerWorker s' = opt_maxTasksPerWorker s"
  using assms by (cases rule: step_cases) simp_all

lemma opts_reachable:
  assumes "exec tr (new_Pool w m) = Inr s"
  shows "opt_workers s = w \<and> opt_maxTasksPerWorker s = m"
proof (rule exec_preserves[of "\<lambda>s. opt_workers s = w \<and> opt_maxTasksPerWorker s = m",
      OF _ _ assms])
  fix e s s'
  assume "opt_workers s = w \<and> opt_maxTasksPerWorker s = m" "step e s = Inr s'"
  then show "opt_workers s' = w \<and> opt_maxTasksPerWorker s' = m"
    using opts_step[of e s s'] by simp
next
  show "opt_workers (new_Pool w m) = w \<and> opt_maxTasksPerWorker (new_Pool w m) = m"
    by (simp add: new_Pool_def)
qed

section \<open>The pool stays within its limit\<close>

lemma within_limit_mono:
  assumes "within_limit s" "nworkers s' \<le> nworkers s" "opt_workers s' = opt_workers s"
  shows "within_limit s'"
proof (cases "nworkers s' = 0")
  case True
  then show ?thesis by (simp add: within_limit_def)
next
  case False
  with assms(2) have "nworkers s \<noteq> 0" by simp
  with assms(1) have "of_nat (nworkers s) < opt_workers s + 1" by (simp add: within_limit_def)
  moreover from assms(2) have "(of_nat (nworkers s') :: rat) \<le> of_nat (nworkers s)" by simp
  ultimately show ?thesis using assms(3) by (simp add: within_limit_def)
qed

lemma within_limit_step:
  assumes lim: "within_limit s" and st: "step e s = Inr s'"
  shows "within_limit s'"
proof -
  have o: "opt_workers s' = opt_workers s" using opts_step[OF st] by simp
  from st show ?thesis
  proof (cases rule: step_cases)
    case (Run t)
    show ?thesis
    proof (cases "idle s = [] \<and> of_nat (nworkers s) < opt_workers s")
      case True
      have "nworkers s' \<le> Suc (nworkers s)"
        using True nworkers_spawn[of "s\<lparr>tasks := t # tasks s, history := TasksUnshift t # history s\<rparr>"]
        unfolding Run(2) by simp
      then have "(of_nat (nworkers s') :: rat) \<le> of_nat (Suc (nworkers s))"
        by (simp only: of_nat_le_iff)
      then have "(of_nat (nworkers s') :: rat) \<le> of_nat (nworkers s) + 1" by simp
      moreover from True have "of_nat (nworkers s) < opt_workers s" by simp
      ultimately have "of_nat (nworkers s') < opt_workers s' + 1" using o by simp
      then show ?thesis by (simp add: within_limit_def)
    next
      case False
      then have "nworkers s' = nworkers s" unfolding Run(2) by (cases "idle s = []") simp_all
      with lim o show ?thesis by (intro within_limit_mono[of s s']) simp_all
    qed
  next
    case (Listen name)
    with lim show ?thesis by (simp add: within_limit_def)
  next
    case Nothing
    with lim show ?thesis by simp
  next
    case (Ready p c)
    have "nworkers s' = nworkers s" unfolding Ready(4) using Ready(2) by (rule nworkers_allocated)
    with lim o show ?thesis by (intro within_limit_mono[of s s']) simp_all
  next
    case (TaskEnd p ty m c t)
    have "nworkers (allocated p (c\<lparr>taskListener := None\<rparr>)
              (s\<lparr>workers := fmupd p (c\<lparr>taskListener := None\<rparr>) (workers s)\<rparr>)) = nworkers s"
      using TaskEnd(3) by (rule nworkers_allocated)
    then have "nworkers s' = nworkers s" unfolding TaskEnd(5) by simp
    with lim o show ?thesis by (intro within_limit_mono[of s s']) simp_all
  next
    case (TaskOther p ty m c t)
    with lim show ?thesis by (simp add: within_limit_def)
  next
    case (GoneIdle p c)
    have "nworkers s' \<le> nworkers s"
      using nworkers_removed[OF GoneIdle(4)] unfolding GoneIdle(6) by simp
    with lim o show ?thesis by (intro within_limit_mono[of s s']) simp_all
  next
    case (GoneRunning p c t err)
    have "nworkers s' \<le> nworkers s"
      using nworkers_replaced[OF GoneRunning(4)] unfolding GoneRunning(9) by simp
    with lim o show ?thesis by (intro within_limit_mono[of s s']) simp_all
  next
    case (GoneQuiet p c)
    have "nworkers s' \<le> nworkers s"
      using nworkers_removed[OF GoneQuiet(4)]
        nworkers_spawn[of "logged (if killed c then ConsoleLog p else ConsoleError p) (removed p s)"]
      unfolding GoneQuiet(8) by (simp del: spawn_fields)
    with lim o show ?thesis by (intro within_limit_mono[of s s']) simp_all
  next
    case Shutdown
    with lim show ?thesis by (simp add: within_limit_def)
  qed
qed

lemma within_limit_reachable:
  assumes "exec tr (new_Pool w m) = Inr s"
  shows "within_limit s"
proof (rule exec_preserves[of within_limit, OF _ _ assms])
  fix e s s' assume "within_limit s" "step e s = Inr s'"
  then show "within_limit s'" by (rule within_limit_step)
next
  show "within_limit (new_Pool w m)" by (simp add: within_limit_def new_Pool_def nworkers_def)
qed

section \<open>Cleaning up after a child\<close>








text \<open>
  Claim C6. When the pid of the child is not a key of \<^verbatim>\<open>workers\<close>, \<^verbatim>\<open>cleanUpChild\<close>
  returns the pool as it was: \<^verbatim>\<open>workers\<close>, \<^verbatim>\<open>idle\<close> and \<^verbatim>\<open>tasks\<close> are unchanged and
  nothing is forked, killed or emitted, for the \<^verbatim>\<open>exit\<close> and for the \<^verbatim>\<open>error\<close> event.
\<close>

theorem cleanUpChild_untracked:
  "fmlookup (workers s) p = None \<Longrightarrow>
     cleanUpChild p err s = Inr s \<and> step (WorkerExit p code signal) s = Inr s \<and>
     step (WorkerError p e) s = Inr s"
  by (simp add: cleanUpChild_def)

text \<open>
  A case of it: worker 0 crashes in its task while task 2 waits, its \<^verbatim>\<open>error\<close> event
  removes it and forks worker 1; the \<^verbatim>\<open>exit\<close> event that follows changes nothing, although
  the queue is not empty.
\<close>

theorem cleanUpChild_untracked_witness:
  "fmlookup (workers (projr (exec [Listen ''error'', Run 1, WorkerReady 0, Run 2,
       WorkerError 0 ''gone''] (new_Pool 1 (- 1))))) 0 = None \<and>
   tasks (projr (exec [Listen ''error'', Run 1, WorkerReady 0, Run 2, WorkerError 0 ''gone'']
       (new_Pool 1 (- 1)))) = [2] \<and>
   step (WorkerExit 0 (Some 1) '''') (projr (exec [Listen ''error'', Run 1, WorkerReady 0, Run 2,
       WorkerError 0 ''gone''] (new_Pool 1 (- 1)))) =
     Inr (projr (exec [Listen ''error'', Run 1, WorkerReady 0, Run 2, WorkerError 0 ''gone'']
       (new_Pool 1 (- 1))))"
proof -
  define s where "s = projr (exec [Listen ''error'', Run 1, WorkerReady 0, Run 2,
    WorkerError 0 ''gone''] (new_Pool 1 (- 1)))"
  have h: "fmlookup (workers s) 0 = None" unfolding s_def by code_simp
  have t: "tasks s = [2]" unfolding s_def by code_simp
  from cleanUpChild_untracked[OF h] h t show ?thesis unfolding s_def by simp
qed

section \<open>A second signal for the same child\<close>

text \<open>
  After \<^verbatim>\<open>cleanUpChild\<close> has handled the \<^verbatim>\<open>exit\<close> or \<^verbatim>\<open>error\<close> of a child, the pid is
  no key of \<^verbatim>\<open>workers\<close> any more, so the other event of the same child finds nothing to
  do.
\<close>

lemma cleanUpChild_forgets:
  assumes "pool_inv s" "cleanUpChild p err s = Inr s'" "fmlookup (workers s) p \<noteq> None"
  shows "fmlookup (workers s') p = None"
proof -
  from assms(3) obtain c where c: "fmlookup (workers s) p = Some c" by auto
  with assms(1) have lt: "p < forked s" by (auto simp: pool_inv_def)
  from cleanUpChild_cases[OF assms(2)] c lt show ?thesis by auto
qed

lemma cleanUpChild_twice:
  assumes "exec tr (new_Pool w m) = Inr s" "cleanUpChild p err s = Inr s'"
  shows "cleanUpChild p err' s' = Inr s'"
proof (cases "fmlookup (workers s) p")
  case None
  with assms(2) have "s' = s" by (simp add: cleanUpChild_def)
  with None show ?thesis by (simp add: cleanUpChild_def)
next
  case (Some c)
  from assms(1) have "pool_inv s" by (rule pool_inv_reachable)
  from cleanUpChild_forgets[OF this assms(2)] Some
  have "fmlookup (workers s') p = None" by simp
  then show ?thesis by (simp add: cleanUpChild_def)
qed

section \<open>A saturated pool\<close>

text \<open>
  Claim C8. In the deferred callback of \<^verbatim>\<open>run\<close>, when no worker is idle and the number of
  tracked workers equals \<^verbatim>\<open>options.workers\<close>, the pool emits \<^verbatim>\<open>saturated\<close> and then puts
  the task into \<^verbatim>\<open>tasks\<close> (at index 0, with \<^verbatim>\<open>unshift\<close>) and returns normally; nothing
  else changes: no fork, the same \<^verbatim>\<open>workers\<close>, the same \<^verbatim>\<open>idle\<close>.
\<close>

theorem run_saturated:
  assumes "idle s = []" and "of_nat (nworkers s) = opt_workers s"
  shows "run t s = Inr (s\<lparr>tasks := t # tasks s,
                          history := TasksUnshift t # Emit ''saturated'' [] # history s\<rparr>)"
proof -
  from assms(2) have "\<not> of_nat (nworkers s) < opt_workers s" by simp
  with assms(1) show ?thesis by (simp add: run_eq)
qed

theorem run_saturated_witness:
  "idle (projr (exec [Run 1] (new_Pool 1 (- 1)))) = [] \<and>
   of_nat (nworkers (projr (exec [Run 1] (new_Pool 1 (- 1))))) =
     opt_workers (projr (exec [Run 1] (new_Pool 1 (- 1)))) \<and>
   run 2 (projr (exec [Run 1] (new_Pool 1 (- 1)))) =
     Inr ((projr (exec [Run 1] (new_Pool 1 (- 1))))
       \<lparr>tasks := [2, 1],
        history := [TasksUnshift 2, Emit ''saturated'' [], Fork 0, TasksUnshift 1]\<rparr>)"
proof -
  define s where "s = projr (exec [Run 1] (new_Pool 1 (- 1)))"
  have a: "idle s = []" unfolding s_def by code_simp
  have b: "of_nat (nworkers s) = opt_workers s" unfolding s_def by code_simp
  have c: "tasks s = [1]" unfolding s_def by code_simp
  have d: "history s = [Fork 0, TasksUnshift 1]" unfolding s_def by code_simp
  from run_saturated[OF a b, of 2] a b c d show ?thesis unfolding s_def by simp
qed

section \<open>The rotation limit and tasks started on an idle worker\<close>

text \<open>
  Claim C2 fails on the code. With \<^verbatim>\<open>maxTasksPerWorker = 2\<close> and one worker, three tasks
  are submitted one after the other, each after the one before has ended. The first is started
  from the queue by \<^verbatim>\<open>_allocate\<close>, which counts it; the other two are started by \<^verbatim>\<open>run\<close>
  on the idle worker, which counts nothing. Worker 0 has been given three tasks, its counter
  is 1 and it was never killed.
\<close>

theorem rotation_limit_missed:
  "map_sum fst (\<lambda>s. startedOn 0 (history s)) (exec
       [Run 1, WorkerReady 0, TaskEmits 0 ''end'' (Message ''a''), Run 2,
        TaskEmits 0 ''end'' (Message ''b''), Run 3]
       (new_Pool 1 2)) = Inr [1, 2, 3] \<and>
   Kill 0 \<notin> set (history (projr (exec
       [Run 1, WorkerReady 0, TaskEmits 0 ''end'' (Message ''a''), Run 2,
        TaskEmits 0 ''end'' (Message ''b''), Run 3]
       (new_Pool 1 2)))) \<and>
   map_option taskCount (fmlookup (workers (projr (exec
       [Run 1, WorkerReady 0, TaskEmits 0 ''end'' (Message ''a''), Run 2,
        TaskEmits 0 ''end'' (Message ''b''), Run 3]
       (new_Pool 1 2)))) 0) = Some 1"
  by code_simp

section \<open>Shutting down\<close>

lemma fold_kill_lookup:
  "fmlookup (workers (fold kill ps s)) q =
     (if q \<in> set ps then map_option (\<lambda>c. c\<lparr>killed := True\<rparr>) (fmlookup (workers s) q)
      else fmlookup (workers s) q)"
  by (induction ps arbitrary: s) (auto split: option.splits)

lemma keys_sorted: "set (sorted_list_of_set (fmdom' ws)) = fmdom' ws"
  by (simp add: fmdom'_alt_def)

text \<open>
  Claim C9. \<^verbatim>\<open>drain()\<close> first sets \<^verbatim>\<open>tasks\<close> to the empty array, then removes the
  listeners of the pool, then calls \<^verbatim>\<open>kill()\<close> on every child in \<^verbatim>\<open>workers\<close>, in the order
  of \<^verbatim>\<open>Object.keys\<close>, and returns. It waits for nothing: the children stay in \<^verbatim>\<open>workers\<close>
  (each now killed, the task it runs still attached) and \<^verbatim>\<open>idle\<close> is as it was.
\<close>

theorem drain_kills_all:
  "tasks (drain s) = [] \<and>
   listeners (drain s) = [] \<and>
   idle (drain s) = idle s \<and>
   history (drain s) =
     rev (map Kill (sorted_list_of_set (fmdom' (workers s)))) @
     RemoveAllListeners # TasksReset # history s \<and>
   (\<forall>p. fmlookup (workers (drain s)) p =
      map_option (\<lambda>c. c\<lparr>killed := True\<rparr>) (fmlookup (workers s) p)) \<and>
   (\<forall>p c. fmlookup (workers s) p = Some c \<longrightarrow> Kill p \<in> set (history (drain s)))"
proof -
  have look: "fmlookup (workers (drain s)) p =
      map_option (\<lambda>c. c\<lparr>killed := True\<rparr>) (fmlookup (workers s) p)" for p
    by (cases "fmlookup (workers s) p")
      (auto simp: drain_def Let_def fold_kill_lookup keys_sorted fmlookup_dom'_iff)
  have mem: "Kill p \<in> set (history (drain s))" if "fmlookup (workers s) p = Some c" for p c
    using that by (simp add: keys_sorted fmlookup_dom'_iff)
  show ?thesis using look mem by simp
qed

theorem drain_kills_all_witness:
  "fmlookup (workers (projr (exec [Run 1, Run 2, WorkerReady 0, Run 3] (new_Pool 2 (- 1))))) 1 =
     Some \<lparr>ready = False, taskCount = 0, killed = False, readyAttached = True,
       taskListener = None\<rparr> \<and>
   Kill 1 \<in> set (history (drain (projr (exec [Run 1, Run 2, WorkerReady 0, Run 3]
       (new_Pool 2 (- 1)))))) \<and>
   tasks (projr (exec [Run 1, Run 2, WorkerReady 0, Run 3] (new_Pool 2 (- 1)))) = [3, 2] \<and>
   tasks (drain (projr (exec [Run 1, Run 2, WorkerReady 0, Run 3] (new_Pool 2 (- 1))))) = []"
proof -
  define s where "s = projr (exec [Run 1, Run 2, WorkerReady 0, Run 3] (new_Pool 2 (- 1)))"
  have h: "fmlookup (workers s) 1 =
     Some \<lparr>ready = False, taskCount = 0, killed = False, readyAttached = True,
       taskListener = None\<rparr>" unfolding s_def by code_simp
  have t: "tasks s = [3, 2]" unfolding s_def by code_simp
  from drain_kills_all[of s] h t show ?thesis unfolding s_def by blast
qed

section \<open>The idle list is ordered by the time of idling\<close>

lemma idleSince_Cons:
  "idleSince (a # h) p = (if a = IdleUnshift p then 0 else Suc (idleSince h p))"
  by (simp add: idleSince_def)

lemma aged_Nil [simp]: "aged h []"
  by (simp add: aged_def)

lemma sorted_older:
  assumes "\<forall>p \<in> set xs. a \<noteq> IdleUnshift p"
  shows "sorted_wrt (\<lambda>p q. idleSince (a # h) p < idleSince (a # h) q) xs =
         sorted_wrt (\<lambda>p q. idleSince h p < idleSince h q) xs"
  using assms by (induction xs) (simp_all add: idleSince_Cons)

lemma aged_Cons_other:
  assumes "\<forall>p \<in> set xs. a \<noteq> IdleUnshift p"
  shows "aged (a # h) xs = aged h xs"
proof -
  from assms have "(\<forall>p \<in> set xs. IdleUnshift p \<in> set (a # h)) = (\<forall>p \<in> set xs. IdleUnshift p \<in> set h)"
    by auto
  with sorted_older[OF assms, of h] show ?thesis by (simp only: aged_def)
qed

lemma aged_Cons_simps [simp]:
  "aged (Emit name args # h) xs = aged h xs"
  "aged (Fork p # h) xs = aged h xs"
  "aged (TaskRun p t # h) xs = aged h xs"
  "aged (Kill p # h) xs = aged h xs"
  "aged (TasksUnshift t # h) xs = aged h xs"
  "aged (TasksPop t # h) xs = aged h xs"
  "aged (TasksReset # h) xs = aged h xs"
  "aged (RemoveAllListeners # h) xs = aged h xs"
  "aged (ConsoleLog p # h) xs = aged h xs"
  "aged (ConsoleError p # h) xs = aged h xs"
  by (rule aged_Cons_other, simp)+

lemma aged_kills [simp]: "aged (rev (map Kill ps) @ h) xs = aged h xs"
proof -
  have "set as \<subseteq> range Kill \<Longrightarrow> aged (as @ h) xs = aged h xs" for as
    by (induction as) auto
  from this[of "rev (map Kill ps)"] show ?thesis by auto
qed

lemma aged_unshift:
  assumes "p \<notin> set xs" "aged h xs"
  shows "aged (IdleUnshift p # h) (p # xs)"
proof -
  from assms(1) have "\<forall>q \<in> set xs. IdleUnshift p \<noteq> IdleUnshift q" by auto
  then have "aged (IdleUnshift p # h) xs = aged h xs" by (rule aged_Cons_other)
  with assms(2) have "aged (IdleUnshift p # h) xs" by simp
  moreover have "\<forall>q \<in> set xs. idleSince (IdleUnshift p # h) p < idleSince (IdleUnshift p # h) q"
    using assms(1) by (auto simp: idleSince_Cons)
  ultimately show ?thesis by (simp add: aged_def)
qed

lemma sorted_wrt_butlast: "sorted_wrt P xs \<Longrightarrow> sorted_wrt P (butlast xs)"
  by (induction xs) (auto dest: in_set_butlastD)

lemma sorted_wrt_remove1: "sorted_wrt P xs \<Longrightarrow> sorted_wrt P (remove1 x xs)"
  by (induction xs) (auto dest: notin_set_remove1)

lemma aged_butlast: "aged h xs \<Longrightarrow> aged h (butlast xs)"
  by (auto simp: aged_def sorted_wrt_butlast dest: in_set_butlastD)

lemma aged_remove1: "aged h xs \<Longrightarrow> aged h (remove1 x xs)"
  by (auto simp: aged_def sorted_wrt_remove1 dest: notin_set_remove1)

lemma aged_last:
  assumes "aged h xs" "xs \<noteq> []"
  shows "\<forall>q \<in> set (butlast xs). idleSince h q < idleSince h (last xs)"
proof -
  from assms(2) have "xs = butlast xs @ [last xs]" by simp
  with assms(1) have "sorted_wrt (\<lambda>p q. idleSince h p < idleSince h q) (butlast xs @ [last xs])"
    by (simp add: aged_def)
  then show ?thesis by (simp add: sorted_wrt_append)
qed

lemma idle_order_new: "idle_order (new_Pool w m)"
  by (simp add: idle_order_def new_Pool_def)

lemma idle_order_simps [simp]:
  "idle_order (s\<lparr>workers := ws\<rparr>) = idle_order s"
  "idle_order (s\<lparr>tasks := ts\<rparr>) = idle_order s"
  "idle_order (s\<lparr>listeners := l\<rparr>) = idle_order s"
  "idle_order (on name s) = idle_order s"
  "idle_order (spawn s) = idle_order s"
  "idle_order (kill p s) = idle_order s"
  "idle_order (start p t s) = idle_order s"
  "idle_order (logged (Emit name args) s) = idle_order s"
  "idle_order (logged (ConsoleLog p) s) = idle_order s"
  "idle_order (logged (ConsoleError p) s) = idle_order s"
  "idle_order (logged (TasksPop t) s) = idle_order s"
  "idle_order (logged (TasksUnshift t) s) = idle_order s"
  by (simp_all add: idle_order_def)

lemma idle_order_allocated:
  assumes "idle_order s" "p \<notin> set (idle s)"
  shows "idle_order (allocated p c s)"
proof -
  have "idle_order (dispatched p c s)" using assms(1) by (simp add: idle_order_def)
  moreover have "idle_order (idled p s)"
    using assms by (simp add: idle_order_def aged_unshift)
  ultimately show ?thesis using assms(1) by simp
qed

lemma idle_order_run:
  assumes "idle_order s"
  shows "idle_order (if idle s \<noteq> [] then start (last (idle s)) t (s\<lparr>idle := butlast (idle s)\<rparr>)
             else if of_nat (nworkers s) < opt_workers s then
               spawn (s\<lparr>tasks := t # tasks s, history := TasksUnshift t # history s\<rparr>)
             else s\<lparr>tasks := t # tasks s,
                    history := TasksUnshift t # Emit ''saturated'' [] # history s\<rparr>)"
proof -
  have "idle_order (s\<lparr>idle := butlast (idle s)\<rparr>)"
    using assms by (simp add: idle_order_def aged_butlast)
  moreover have "idle_order (s\<lparr>tasks := t # tasks s, history := TasksUnshift t # history s\<rparr>)"
    using assms by (simp add: idle_order_def)
  moreover have "idle_order (s\<lparr>tasks := t # tasks s,
      history := TasksUnshift t # Emit ''saturated'' [] # history s\<rparr>)"
    using assms by (simp add: idle_order_def)
  ultimately show ?thesis by simp
qed

lemma idle_order_removed:
  assumes "idle_order s"
  shows "idle_order (removed p s)"
    and "idle_order ((removed p s)\<lparr>idle := remove1 p (idle s)\<rparr>)"
    and "idle_order (replaced (removed p s))"
    and "idle_order (replaced (logged (if killed c then ConsoleLog p else ConsoleError p)
            (removed p s)))"
  using assms by (simp_all add: idle_order_def aged_remove1)

lemma idle_order_drain: "idle_order s \<Longrightarrow> idle_order (drain s)"
  by (simp add: idle_order_def)

lemma idle_order_step:
  assumes "pool_inv s \<and> idle_order s" "step e s = Inr s'"
  shows "pool_inv s' \<and> idle_order s'"
proof -
  from assms have inv: "pool_inv s" and ord: "idle_order s" by simp_all
  from assms have inv': "pool_inv s'" using pool_inv_step by blast
  from assms(2) have "idle_order s'"
  proof (cases rule: step_cases)
    case (Run t)
    show ?thesis unfolding Run(2) using ord by (rule idle_order_run)
  next
    case (Listen name)
    with ord show ?thesis by simp
  next
    case Nothing
    with ord show ?thesis by simp
  next
    case (Ready p c)
    let ?c = "c\<lparr>ready := True, readyAttached := False\<rparr>"
    let ?s = "s\<lparr>workers := fmupd p ?c (workers s)\<rparr>"
    have "idle_order ?s" using ord by simp
    moreover have "p \<notin> set (idle ?s)" using pool_inv_handshake(2)[OF inv Ready(2,3)] by simp
    ultimately show ?thesis unfolding Ready(4) by (rule idle_order_allocated)
  next
    case (TaskEnd p ty m c t)
    let ?c = "c\<lparr>taskListener := None\<rparr>"
    let ?s = "s\<lparr>workers := fmupd p ?c (workers s)\<rparr>"
    have "idle_order ?s" using ord by simp
    moreover have "p \<notin> set (idle ?s)" using pool_inv_detach(2)[OF inv TaskEnd(3,4)] by simp
    ultimately have "idle_order (allocated p ?c ?s)" by (rule idle_order_allocated)
    then show ?thesis unfolding TaskEnd(5) by simp
  next
    case (TaskOther p ty m c t)
    with ord show ?thesis by simp
  next
    case (GoneIdle p c)
    show ?thesis unfolding GoneIdle(6) using ord by (rule idle_order_removed(2))
  next
    case (GoneRunning p c t err)
    have "idle_order (replaced (removed p s))" using ord by (rule idle_order_removed(3))
    then show ?thesis unfolding GoneRunning(9) by simp
  next
    case (GoneQuiet p c)
    show ?thesis unfolding GoneQuiet(8) using ord by (rule idle_order_removed(4))
  next
    case Shutdown
    show ?thesis unfolding Shutdown(2) using ord by (rule idle_order_drain)
  qed
  with inv' show ?thesis by simp
qed

lemma idle_order_reachable:
  assumes "exec tr (new_Pool w m) = Inr s"
  shows "pool_inv s \<and> idle_order s"
proof (rule exec_preserves[of "\<lambda>s. pool_inv s \<and> idle_order s", OF _ _ assms])
  fix e s s' assume "pool_inv s \<and> idle_order s" "step e s = Inr s'"
  then show "pool_inv s' \<and> idle_order s'" by (rule idle_order_step)
next
  show "pool_inv (new_Pool w m) \<and> idle_order (new_Pool w m)"
    by (simp add: pool_inv_new idle_order_new)
qed

text \<open>
  Claim C7. \<open>idleSince h p\<close> is the number of entries of the history since \<open>p\<close> was last
  put on the idle list. In every state that a pool reaches with some worker idle, the
  deferred callback of \<^verbatim>\<open>run\<close> returns normally, takes the last pid of \<^verbatim>\<open>idle\<close> and runs
  the task on that worker; that worker was put on the idle list (by \<^verbatim>\<open>_allocate\<close>, at
  index 0) before every other idle worker, so it has been idle longest.
\<close>

theorem run_takes_longest_idle:
  assumes "exec tr (new_Pool w m) = Inr s" and "idle s \<noteq> []"
  shows "run t s = Inr (start (last (idle s)) t (s\<lparr>idle := butlast (idle s)\<rparr>)) \<and>
         (\<forall>s'. run t s = Inr s' \<longrightarrow>
            history s' = TaskRun (last (idle s)) t # history s \<and>
            idle s' = butlast (idle s)) \<and>
         IdleUnshift (last (idle s)) \<in> set (history s) \<and>
         (\<forall>q \<in> set (butlast (idle s)).
            idleSince (history s) q < idleSince (history s) (last (idle s)))"
proof -
  from assms(1) have "idle_order s" using idle_order_reachable by blast
  then have a: "aged (history s) (idle s)" by (simp add: idle_order_def)
  from a assms(2) have mem: "IdleUnshift (last (idle s)) \<in> set (history s)"
    by (simp add: aged_def)
  from a assms(2) have old: "\<forall>q \<in> set (butlast (idle s)).
      idleSince (history s) q < idleSince (history s) (last (idle s))"
    by (rule aged_last)
  from assms(2) have "run t s = Inr (start (last (idle s)) t (s\<lparr>idle := butlast (idle s)\<rparr>))"
    by (simp add: run_def)
  with mem old show ?thesis by simp
qed

theorem run_takes_longest_idle_witness:
  "exec [Run 1, Run 2, WorkerReady 0, WorkerReady 1, TaskEmits 0 ''end'' (Message ''a''),
       TaskEmits 1 ''end'' (Message ''b'')] (new_Pool 2 (- 1)) =
     Inr (projr (exec [Run 1, Run 2, WorkerReady 0, WorkerReady 1,
       TaskEmits 0 ''end'' (Message ''a''), TaskEmits 1 ''end'' (Message ''b'')]
       (new_Pool 2 (- 1)))) \<and>
   idle (projr (exec [Run 1, Run 2, WorkerReady 0, WorkerReady 1,
       TaskEmits 0 ''end'' (Message ''a''), TaskEmits 1 ''end'' (Message ''b'')]
       (new_Pool 2 (- 1)))) = [1, 0] \<and>
   idleSince (history (projr (exec [Run 1, Run 2, WorkerReady 0, WorkerReady 1,
       TaskEmits 0 ''end'' (Message ''a''), TaskEmits 1 ''end'' (Message ''b'')]
       (new_Pool 2 (- 1))))) 1 <
   idleSince (history (projr (exec [Run 1, Run 2, WorkerReady 0, WorkerReady 1,
       TaskEmits 0 ''end'' (Message ''a''), TaskEmits 1 ''end'' (Message ''b'')]
       (new_Pool 2 (- 1))))) 0 \<and>
   map_sum fst (\<lambda>s. hd (history s)) (run 3 (projr (exec [Run 1, Run 2, WorkerReady 0,
       WorkerReady 1, TaskEmits 0 ''end'' (Message ''a''), TaskEmits 1 ''end'' (Message ''b'')]
       (new_Pool 2 (- 1))))) = Inr (TaskRun 0 3)"
proof -
  let ?tr = "[Run 1, Run 2, WorkerReady 0, WorkerReady 1, TaskEmits 0 ''end'' (Message ''a''),
    TaskEmits 1 ''end'' (Message ''b'')]"
  define s where "s = projr (exec ?tr (new_Pool 2 (- 1)))"
  have h: "exec ?tr (new_Pool 2 (- 1)) = Inr s" unfolding s_def by code_simp
  have i: "idle s = [1, 0]" unfolding s_def by code_simp
  then have n: "idle s \<noteq> []" by simp
  from run_takes_longest_idle[OF h n, of 3] i
  have "idleSince (history s) 1 < idleSince (history s) 0"
    and "map_sum fst (\<lambda>s. hd (history s)) (run 3 s) = Inr (TaskRun 0 3)"
    by simp_all
  with h i show ?thesis unfolding s_def by blast
qed

section \<open>The two revisions agree while the limit is off\<close>

lemma forget_fields [simp]:
  "opt_workers0 (forget s) = opt_workers s"
  "workers0 (forget s) = fmmap forget_child (workers s)"
  "idle0 (forget s) = idle s"
  "tasks0 (forget s) = tasks s"
  "listeners0 (forget s) = listeners s"
  "forked0 (forget s) = forked s"
  "history0 (forget s) = history s"
  "nworkers0 (forget s) = nworkers s"
  by (simp_all add: forget_def nworkers0_def nworkers_def)

lemma forget_updates [simp]:
  "forget (s\<lparr>history := h\<rparr>) = (forget s)\<lparr>history0 := h\<rparr>"
  "forget (s\<lparr>tasks := ts\<rparr>) = (forget s)\<lparr>tasks0 := ts\<rparr>"
  "forget (s\<lparr>idle := i\<rparr>) = (forget s)\<lparr>idle0 := i\<rparr>"
  "forget (s\<lparr>forked := n\<rparr>) = (forget s)\<lparr>forked0 := n\<rparr>"
  "forget (s\<lparr>workers := ws\<rparr>) = (forget s)\<lparr>workers0 := fmmap forget_child ws\<rparr>"
  by (simp_all add: forget_def)

lemma nworkers0_updates [simp]:
  "nworkers0 (s\<lparr>history0 := h\<rparr>) = nworkers0 s"
  "nworkers0 (s\<lparr>idle0 := i\<rparr>) = nworkers0 s"
  "nworkers0 (s\<lparr>tasks0 := ts\<rparr>) = nworkers0 s"
  by (simp_all add: nworkers0_def)

lemma pool0_update_order:
  "s\<lparr>history0 := h, tasks0 := ts\<rparr> = s\<lparr>tasks0 := ts, history0 := h\<rparr>"
  by (cases s) simp

lemma forget_same_workers [simp]:
  "(forget s)\<lparr>workers0 := fmmap forget_child (workers s)\<rparr> = forget s"
  by (simp add: forget_def)

lemma forget_child_updates [simp]:
  "forget_child (c\<lparr>taskCount := n\<rparr>) = forget_child c"
  "forget_child (c\<lparr>taskListener := l\<rparr>) = (forget_child c)\<lparr>taskListener0 := l\<rparr>"
  "forget_child (c\<lparr>ready := b\<rparr>) = (forget_child c)\<lparr>ready0 := b\<rparr>"
  "forget_child (c\<lparr>readyAttached := b\<rparr>) = (forget_child c)\<lparr>readyAttached0 := b\<rparr>"
  "readyAttached0 (forget_child c) = readyAttached c"
  by (simp_all add: forget_child_def)

lemma forget_logged [simp]: "forget (logged a s) = logged0 a (forget s)"
  by (simp add: logged_def logged0_def)

lemma forget_emit:
  "map_sum (map_prod id forget) forget (emit name args s) = emit0 name args (forget s)"
  by (simp add: emit_def emit0_def)

lemma forget_spawn [simp]: "forget (spawn s) = spawn0 (forget s)"
  by (simp add: spawn_def spawn0_def Let_def fmmap_fmupd forget_child_def)

lemma forget_start [simp]: "forget (start p t s) = start0 p t (forget s)"
  by (cases "fmlookup (workers s) p")
    (simp_all add: start_def start0_def Let_def fmmap_fmupd logged0_def)

lemma emit0_other:
  "name \<noteq> ''error'' \<Longrightarrow> emit0 name args s = Inr (logged0 (Emit name args) s)"
  by (simp add: emit0_def)

lemma forget_makeIdle:
  "map_sum (map_prod id forget) forget (makeIdle p s) = makeIdle0 p (forget s)"
  by (simp add: makeIdle_eq makeIdle0_def Let_def logged0_def emit0_other)

lemma same_child_after_count:
  "fmlookup ws p = Some c \<Longrightarrow>
     fmmap forget_child (fmupd p (c\<lparr>taskCount := n\<rparr>) ws) = fmmap forget_child ws"
  by (rule fmap_ext) auto

lemma forget_allocate:
  assumes "opt_maxTasksPerWorker s \<le> 0" "fmlookup (workers s) p = Some c"
  shows "allocate p s = Inr (if tasks s \<noteq> [] then dispatched p c s else idled p s)"
    and "map_sum (map_prod id forget) forget (allocate p s) = allocate0 p (forget s)"
proof -
  show a: "allocate p s = Inr (if tasks s \<noteq> [] then dispatched p c s else idled p s)"
    using assms by (simp add: allocate_tracked)
  show "map_sum (map_prod id forget) forget (allocate p s) = allocate0 p (forget s)"
  proof (cases "tasks s = []")
    case True
    have "allocate p s = makeIdle p s" using True a by (simp add: makeIdle_eq)
    with True show ?thesis by (simp add: forget_makeIdle allocate0_def)
  next
    case False
    with a have "allocate p s = Inr (dispatched p c s)" by simp
    with False assms(2) show ?thesis
      by (simp add: allocate0_def Let_def same_child_after_count emit0_other logged0_def
          pool0_update_order)
  qed
qed

lemma forget_handleWorkerDone:
  assumes "opt_maxTasksPerWorker s \<le> 0"
  shows "map_sum (map_prod id forget) forget (handleWorkerDone p s) =
     (if p |\<in>| fmdom (workers0 (forget s)) then allocate0 p (forget s)
      else if tasks0 (forget s) \<noteq> [] then Inr (spawn0 (forget s))
      else Inr (forget s))"
proof (cases "fmlookup (workers s) p")
  case None
  then show ?thesis by (simp add: handleWorkerDone_untracked fmlookup_dom_iff)
next
  case (Some c)
  then have "p |\<in>| fmdom (workers s)" by (simp add: fmlookup_dom_iff)
  with forget_allocate(2)[OF assms Some] show ?thesis by (simp add: handleWorkerDone_def)
qed

lemma handleWorkerDone_returns: "\<exists>s1. handleWorkerDone p s = Inr s1"
  by (cases "fmlookup (workers s) p")
    (simp_all add: handleWorkerDone_untracked handleWorkerDone_tracked)

lemma forget_taskCallback:
  assumes "opt_maxTasksPerWorker s \<le> 0"
  shows "map_sum (map_prod id forget) forget (taskCallback p t ty m s) =
     taskCallback0 p t ty m (forget s)"
proof -
  have em: "map_sum (map_prod id forget) forget
      (if ty = ''start'' then emit ty [ArgTask t] s1 else emit ty [ArgMessage m, ArgTask t] s1) =
      (if ty = ''start'' then emit0 ty [ArgTask t] (forget s1)
       else emit0 ty [ArgMessage m, ArgTask t] (forget s1))" for s1
    by (simp add: forget_emit del: emit_other)
  show ?thesis
  proof (cases "ty = ''end'' \<or> ty = ''error''")
    case False
    with em[of s] show ?thesis by (simp add: taskCallback_def taskCallback0_def)
  next
    case True
    obtain s1 where s1: "handleWorkerDone p s = Inr s1"
      using handleWorkerDone_returns by blast
    with forget_handleWorkerDone[OF assms, of p]
    have f: "(if p |\<in>| fmdom (workers0 (forget s)) then allocate0 p (forget s)
      else if tasks0 (forget s) \<noteq> [] then Inr (spawn0 (forget s))
      else Inr (forget s)) = Inr (forget s1)"
      by simp
    have "taskCallback p t ty m s =
        (if ty = ''start'' then emit ty [ArgTask t] s1 else emit ty [ArgMessage m, ArgTask t] s1)"
      using True s1 by (simp add: taskCallback_def)
    moreover have "taskCallback0 p t ty m (forget s) =
        (if ty = ''start'' then emit0 ty [ArgTask t] (forget s1)
         else emit0 ty [ArgMessage m, ArgTask t] (forget s1))"
      using True by (simp only: taskCallback0_def f if_True sum.case)
    ultimately show ?thesis using em[of s1] by simp
  qed
qed

lemma forget_run: "map_sum (map_prod id forget) forget (run t s) = run0 t (forget s)"
  by (simp add: run_eq run0_def emit0_other logged0_def pool0_update_order)

lemma forget_readyListener:
  assumes "opt_maxTasksPerWorker s \<le> 0"
  shows "map_sum (map_prod id forget) forget (readyListener p s) = readyListener0 p (forget s)"
proof (cases "fmlookup (workers s) p")
  case None
  then show ?thesis by (simp add: readyListener_def readyListener0_def)
next
  case (Some c)
  show ?thesis
  proof (cases "readyAttached c")
    case False
    with Some show ?thesis by (simp add: readyListener_def readyListener0_def)
  next
    case True
    let ?c = "c\<lparr>ready := True, readyAttached := False\<rparr>"
    let ?s = "s\<lparr>workers := fmupd p ?c (workers s)\<rparr>"
    have m: "opt_maxTasksPerWorker ?s \<le> 0" using assms by simp
    have l: "fmlookup (workers ?s) p = Some ?c" by simp
    from forget_allocate(2)[OF m l] Some True show ?thesis
      by (simp add: readyListener_def readyListener0_def fmmap_fmupd)
  qed
qed

text \<open>
  Claim C10. While \<^verbatim>\<open>maxTasksPerWorker\<close> is not positive, \<^verbatim>\<open>run\<close> and \<^verbatim>\<open>_allocate\<close>
  of the two revisions do the same to every pool: seen without the counters, the pool that the
  later revision leaves is the pool that the earlier one leaves, with the same \<^verbatim>\<open>workers\<close>,
  \<^verbatim>\<open>idle\<close> and \<^verbatim>\<open>tasks\<close> and the same history of events emitted, tasks started and
  processes forked, and neither throws. \<^verbatim>\<open>_allocate\<close> is compared on the pid of a tracked
  worker, which is what both revisions call it with: from \<^verbatim>\<open>readyListener\<close> and from the
  callback of \<^verbatim>\<open>_start\<close>, which agree on every pool and every pid as well, also when the
  emission of a task's \<^verbatim>\<open>error\<close> throws. The only thing the later revision does more is to
  add one to the counter of the worker it allocates.
\<close>

theorem revisions_agree:
  assumes "opt_maxTasksPerWorker s \<le> 0"
  shows "map_sum (map_prod id forget) forget (run t s) = run0 t (forget s) \<and>
         (\<exists>s'. run t s = Inr s') \<and>
         (\<forall>c. fmlookup (workers s) p = Some c \<longrightarrow>
            map_sum (map_prod id forget) forget (allocate p s) = allocate0 p (forget s) \<and>
            (\<exists>s'. allocate p s = Inr s')) \<and>
         map_sum (map_prod id forget) forget (readyListener p s) = readyListener0 p (forget s) \<and>
         (\<exists>s'. readyListener p s = Inr s') \<and>
         map_sum (map_prod id forget) forget (taskCallback p t ty m s) =
           taskCallback0 p t ty m (forget s)"
proof -
  have "\<exists>s'. run t s = Inr s'" by (simp add: run_eq)
  moreover have "\<exists>s'. readyListener p s = Inr s'" by (simp add: readyListener_eq)
  moreover have "\<exists>s'. allocate p s = Inr s'" if "fmlookup (workers s) p = Some c" for c
    using that by (simp add: allocate_tracked)
  ultimately show ?thesis
    using assms forget_run[of t s] forget_allocate(2)[of s p] forget_readyListener[of s p]
      forget_taskCallback[of s p t ty m]
    by blast
qed

theorem revisions_agree_witness:
  "opt_maxTasksPerWorker (projr (exec [Run 1, Run 2] (new_Pool 1 (- 1)))) \<le> 0 \<and>
   fmlookup (workers (projr (exec [Run 1, Run 2] (new_Pool 1 (- 1))))) 0 =
     Some \<lparr>ready = False, taskCount = 0, killed = False, readyAttached = True,
       taskListener = None\<rparr> \<and>
   map_sum (map_prod id forget) forget
     (allocate 0 (projr (exec [Run 1, Run 2] (new_Pool 1 (- 1))))) =
     allocate0 0 (forget (projr (exec [Run 1, Run 2] (new_Pool 1 (- 1))))) \<and>
   map_sum fst history0 (allocate0 0 (forget (projr (exec [Run 1, Run 2]
       (new_Pool 1 (- 1)))))) =
     Inr [TaskRun 0 1, TasksPop 1, Emit ''empty'' [], TasksUnshift 2, Emit ''saturated'' [],
       Fork 0, TasksUnshift 1]"
proof -
  define s where "s = projr (exec [Run 1, Run 2] (new_Pool 1 (- 1)))"
  have m: "opt_maxTasksPerWorker s \<le> 0" unfolding s_def by code_simp
  have l: "fmlookup (workers s) 0 =
     Some \<lparr>ready = False, taskCount = 0, killed = False, readyAttached = True,
       taskListener = None\<rparr>" unfolding s_def by code_simp
  have h: "map_sum fst history0 (allocate0 0 (forget s)) =
     Inr [TaskRun 0 1, TasksPop 1, Emit ''empty'' [], TasksUnshift 2, Emit ''saturated'' [],
       Fork 0, TasksUnshift 1]" unfolding s_def by code_simp
  from revisions_agree[OF m, of _ 0] l
  have "map_sum (map_prod id forget) forget (allocate 0 s) = allocate0 0 (forget s)" by blast
  with m l h show ?thesis unfolding s_def by blast
qed

end
